theory Spec2Isabelle
  imports Complex_Main
begin

section \<open>PupTelemetry: a shallow embedding of src/telemetry.ts and src/unnamed/part_000\<close>

text \<open>
  The repository holds two versions of the class \<open>PupTelemetry\<close>:
  \<^item> \<open>src/telemetry.ts\<close>, where peers are reached through a file mailbox (\<open>FileIPC\<close>);
  \<^item> \<open>src/unnamed/part_000\<close>, where peers are reached through the REST client of the
    main process (\<open>sendIpc\<close>).
  The constructor, \<open>sendMainTelemetry\<close>, \<open>telemetryWatchdog\<close>, \<open>on\<close> and \<open>off\<close> are the
  same text in both; \<open>checkIpc\<close>, \<open>emit\<close> and \<open>close\<close> differ and are embedded twice.

  JavaScript runs one turn of the event loop at a time. A method is embedded as a function
  on the pair of the instance (\<open>this\<close>) and the rest of the process; where a method
  suspends at an \<open>await\<close> whose continuation reads mutable state, the continuation is a
  separate event of the process.
\<close>

subsection \<open>JavaScript values\<close>

text \<open>
  A value of the type \<open>number\<close>. The finite doubles are rationals, and the
  constructor only compares its argument with 1 and 180, which is exact.
\<close>

datatype js_number = NaN | PosInf | NegInf | Fin rat

text \<open>\<open>!x\<close> on a number: true for \<open>0\<close>, \<open>-0\<close> and \<open>NaN\<close>.\<close>

fun js_not :: "js_number \<Rightarrow> bool" where
  "js_not NaN = True"
| "js_not (Fin q) = (q = 0)"
| "js_not PosInf = False"
| "js_not NegInf = False"

text \<open>\<open>x < y\<close> on numbers: false as soon as one side is \<open>NaN\<close>.\<close>

fun js_lt :: "js_number \<Rightarrow> js_number \<Rightarrow> bool" where
  "js_lt NaN _ = False"
| "js_lt _ NaN = False"
| "js_lt PosInf _ = False"
| "js_lt NegInf NegInf = False"
| "js_lt NegInf _ = True"
| "js_lt (Fin a) PosInf = True"
| "js_lt (Fin a) NegInf = False"
| "js_lt (Fin a) (Fin b) = (a < b)"

definition js_gt :: "js_number \<Rightarrow> js_number \<Rightarrow> bool" where
  "js_gt x y = js_lt y x"

text \<open>
  Payloads (\<open>eventData?: T\<close>, parsed messages, relay payloads) are JSON-like values.
  A value of type \<open>json option\<close> is a possibly \<open>undefined\<close> value (\<open>None\<close> is \<open>undefined\<close>).
  \<^item> A number is named by the decimal that \<open>JSON.stringify\<close> prints for it: \<open>JNum i\<close> is
    the integer \<open>i\<close>, and \<open>JFrac s e\<close> is the number \<open>s\<close> times ten to the power \<open>e\<close> that is
    not an integer (\<open>e\<close> is negative and \<open>s\<close> is not divisible by ten), so that
    \<open>21.5\<close> is \<open>JFrac 215 (- 1)\<close>.
  \<^item> A string is the list of its UTF-8 bytes; a surrogate that is not half of a pair is
    the three bytes of its own code point.
  \<^item> An object is the list of its own properties in enumeration order: the
    integer-like names in ascending order, then the other names in order of creation.
\<close>

datatype json =
    JNull
  | JBool bool
  | JNum int
  | JFrac int int
  | JStr string
  | JArr "json list"
  | JObj "(string \<times> json) list"

datatype error = TypeError | SyntaxError | IOError | UserError

text \<open>Truthiness of a possibly undefined string (\<open>getEnv\<close> results, \<open>message.data\<close>).\<close>

fun truthy :: "string option \<Rightarrow> bool" where
  "truthy None = False"
| "truthy (Some s) = (s \<noteq> [])"

text \<open>Truthiness of a possibly undefined JSON value.\<close>

fun js_truthy :: "json option \<Rightarrow> bool" where
  "js_truthy None = False"
| "js_truthy (Some JNull) = False"
| "js_truthy (Some (JBool b)) = b"
| "js_truthy (Some (JNum n)) = (n \<noteq> 0)"
| "js_truthy (Some (JFrac m e)) = (m \<noteq> 0)"
| "js_truthy (Some (JStr s)) = (s \<noteq> [])"
| "js_truthy (Some (JArr _)) = True"
| "js_truthy (Some (JObj _)) = True"

text \<open>A template literal \<open>`${x}`\<close> prints \<open>undefined\<close> as the word. The function also
  reads a string that a truthiness test has shown to be defined.\<close>

fun interpolate :: "string option \<Rightarrow> string" where
  "interpolate None = ''undefined''"
| "interpolate (Some s) = s"

text \<open>
  Reading the property \<open>k\<close> (here always \<open>event\<close>, \<open>eventData\<close> or \<open>target\<close>) of a parsed
  value: \<open>null.k\<close> throws a TypeError, a primitive or an array has no such property.
\<close>

fun get_prop :: "json \<Rightarrow> string \<Rightarrow> error + json option" where
  "get_prop JNull k = Inl TypeError"
| "get_prop (JObj kvs) k = Inr (map_of kvs k)"
| "get_prop _ k = Inr None"

text \<open>Optional chaining \<open>x?.k\<close>: \<open>undefined\<close> when \<open>x\<close> is \<open>undefined\<close> or \<open>null\<close>.\<close>

fun opt_prop :: "json option \<Rightarrow> string \<Rightarrow> json option" where
  "opt_prop None k = None"
| "opt_prop (Some (JObj kvs)) k = map_of kvs k"
| "opt_prop (Some _) k = None"

subsection \<open>\<open>JSON.stringify\<close> and \<open>JSON.parse\<close>\<close>

text \<open>
  The two built-ins on the values above, after ECMA-262 and ECMA-404.
  \<open>JSON_stringify\<close> prints without white space, escapes the quote, the backslash, the
  control characters and a surrogate that stands alone, and prints a number as
  \<open>Number::toString\<close> does. \<open>JSON_parse\<close> reads the JSON grammar (white space between
  tokens, the escapes of a string, numbers with fraction and exponent, no leading zero,
  no trailing comma, a later duplicate key overwriting the earlier one) and answers
  \<open>None\<close> where the built-in throws a SyntaxError.
  The parser recurses on a bound for the nesting, which the length of the text covers.
\<close>

text \<open>The digit for a value below 16: \<open>0\<close> to \<open>9\<close>, then \<open>a\<close> to \<open>f\<close>.\<close>

definition hexdigit :: "int \<Rightarrow> char" where
  "hexdigit n = (if n < 10 then char_of (48 + n) else char_of (87 + n))"

definition is_digit :: "char \<Rightarrow> bool" where
  "is_digit c = (48 \<le> (of_char c :: int) \<and> (of_char c :: int) \<le> 57)"

text \<open>The decimal digits of a number that is not negative.\<close>

function digits :: "int \<Rightarrow> string" where
  "digits n = (if n < 10 then [hexdigit n] else digits (n div 10) @ [hexdigit (n mod 10)])"
  by pat_completeness auto
termination
  by (relation "measure nat") auto

declare digits.simps [simp del]

definition digits_value :: "string \<Rightarrow> int" where
  "digits_value ds = foldl (\<lambda>acc c. acc * 10 + (of_char c - 48)) 0 ds"

text \<open>A digit string without its trailing zeros.\<close>

definition strip_zeros :: "string \<Rightarrow> string" where
  "strip_zeros ds = rev (dropWhile (\<lambda>c. c = CHR ''0'') (rev ds))"

text \<open>The exponent of the scientific form: \<open>e\<close>, a sign that is always written, the digits.\<close>

definition exponent_part :: "int \<Rightarrow> string" where
  "exponent_part x = CHR ''e'' # (if x < 0 then CHR ''-'' else CHR ''+'') # digits \<bar>x\<bar>"

text \<open>\<open>Number::toString\<close> of ECMAScript for a positive number given by its digits \<open>ds\<close> (the
  first and the last are not zero) and the position \<open>n\<close> of the decimal point after the first
  digit of \<open>ds\<close>: the number is \<open>0.ds\<close> times ten to the power \<open>n\<close>. Plain digits up to
  21 places, a decimal point inside or \<open>0.\<close> in front down to \<open>1e-6\<close>, the scientific form
  otherwise.\<close>

definition number_to_string :: "string \<Rightarrow> int \<Rightarrow> string" where
  "number_to_string ds n =
     (let k = int (length ds)
      in if k \<le> n \<and> n \<le> 21 then ds @ replicate (nat (n - k)) (CHR ''0'')
         else if 0 < n \<and> n \<le> 21 then take (nat n) ds @ ''.'' @ drop (nat n) ds
         else if - 6 < n \<and> n \<le> 0 then ''0.'' @ replicate (nat (- n)) (CHR ''0'') @ ds
         else if k = 1 then ds @ exponent_part (n - 1)
         else take 1 ds @ ''.'' @ drop 1 ds @ exponent_part (n - 1))"

definition print_int :: "int \<Rightarrow> string" where
  "print_int i =
     (if i = 0 then ''0''
      else (if i < 0 then ''-'' else []) @
           number_to_string (strip_zeros (digits \<bar>i\<bar>)) (int (length (digits \<bar>i\<bar>))))"

definition print_frac :: "int \<Rightarrow> int \<Rightarrow> string" where
  "print_frac s e =
     (if s < 0 then ''-'' else []) @
     number_to_string (digits \<bar>s\<bar>) (int (length (digits \<bar>s\<bar>)) + e)"

text \<open>A surrogate that stands alone is printed as a unicode escape (well-formed
  \<open>JSON.stringify\<close>); its three bytes are \<open>ED\<close>, a byte from \<open>A0\<close> to \<open>BF\<close>, and a continuation
  byte.\<close>

definition is_continuation :: "char \<Rightarrow> bool" where
  "is_continuation c = (128 \<le> (of_char c :: int) \<and> (of_char c :: int) < 192)"

definition hex4 :: "int \<Rightarrow> string" where
  "hex4 u = [hexdigit (u div 4096), hexdigit (u div 256 mod 16), hexdigit (u div 16 mod 16),
             hexdigit (u mod 16)]"

definition escape_char :: "char \<Rightarrow> string" where
  "escape_char c =
     (if c = CHR 0x22 then [CHR 0x5C, CHR 0x22]
      else if c = CHR 0x5C then [CHR 0x5C, CHR 0x5C]
      else if c = CHR 0x08 then [CHR 0x5C, CHR ''b'']
      else if c = CHR 0x0C then [CHR 0x5C, CHR ''f'']
      else if c = CHR 0x0A then [CHR 0x5C, CHR ''n'']
      else if c = CHR 0x0D then [CHR 0x5C, CHR ''r'']
      else if c = CHR 0x09 then [CHR 0x5C, CHR ''t'']
      else if (of_char c :: int) < 32 then [CHR 0x5C, CHR ''u''] @ hex4 (of_char c)
      else [c])"

fun escape_string :: "string \<Rightarrow> string" where
  "escape_string (a # b # c # cs) =
     (if a = CHR 0xED \<and> 160 \<le> (of_char b :: int) \<and> is_continuation b \<and> is_continuation c then
        [CHR 0x5C, CHR ''u''] @ hex4 (53248 + (of_char b - 128) * 64 + (of_char c - 128))
        @ escape_string cs
      else escape_char a @ escape_string (b # c # cs))"
| "escape_string (a # cs) = escape_char a @ escape_string cs"
| "escape_string [] = []"

definition quote :: "string \<Rightarrow> string" where
  "quote s = CHR 0x22 # escape_string s @ [CHR 0x22]"

fun print_value :: "json \<Rightarrow> string"
  and print_elems :: "json list \<Rightarrow> string"
  and print_members :: "(string \<times> json) list \<Rightarrow> string" where
  "print_value JNull = ''null''"
| "print_value (JBool b) = (if b then ''true'' else ''false'')"
| "print_value (JNum i) = print_int i"
| "print_value (JFrac s e) = print_frac s e"
| "print_value (JStr s) = quote s"
| "print_value (JArr vs) = ''['' @ print_elems vs @ '']''"
| "print_value (JObj kvs) = ''{'' @ print_members kvs @ ''}''"
| "print_elems [] = []"
| "print_elems (v # vs) = print_value v @ (if vs = [] then [] else '','' @ print_elems vs)"
| "print_members [] = []"
| "print_members ((k, v) # kvs) =
     quote k @ '':'' @ print_value v @ (if kvs = [] then [] else '','' @ print_members kvs)"

definition is_ws :: "char \<Rightarrow> bool" where
  "is_ws c = (c = CHR '' '' \<or> c = CHR 0x09 \<or> c = CHR 0x0A \<or> c = CHR 0x0D)"

definition skip_ws :: "string \<Rightarrow> string" where
  "skip_ws s = dropWhile is_ws s"

definition hexval :: "char \<Rightarrow> int option" where
  "hexval c =
     (let n = (of_char c :: int)
      in if 48 \<le> n \<and> n \<le> 57 then Some (n - 48)
         else if 97 \<le> n \<and> n \<le> 102 then Some (n - 87)
         else if 65 \<le> n \<and> n \<le> 70 then Some (n - 55)
         else None)"

definition unescape :: "char \<Rightarrow> char option" where
  "unescape e =
     (if e = CHR 0x22 then Some (CHR 0x22)
      else if e = CHR 0x5C then Some (CHR 0x5C)
      else if e = CHR ''/'' then Some (CHR ''/'')
      else if e = CHR ''b'' then Some (CHR 0x08)
      else if e = CHR ''f'' then Some (CHR 0x0C)
      else if e = CHR ''n'' then Some (CHR 0x0A)
      else if e = CHR ''r'' then Some (CHR 0x0D)
      else if e = CHR ''t'' then Some (CHR 0x09)
      else None)"

text \<open>The UTF-8 bytes of a code point; a surrogate code point gets its three bytes.\<close>

definition utf8 :: "int \<Rightarrow> string" where
  "utf8 cp =
     (if cp < 128 then [char_of cp]
      else if cp < 2048 then [char_of (192 + cp div 64), char_of (128 + cp mod 64)]
      else if cp < 65536 then
        [char_of (224 + cp div 4096), char_of (128 + cp div 64 mod 64), char_of (128 + cp mod 64)]
      else
        [char_of (240 + cp div 262144), char_of (128 + cp div 4096 mod 64),
         char_of (128 + cp div 64 mod 64), char_of (128 + cp mod 64)])"

definition unicode_escape :: "char \<Rightarrow> char \<Rightarrow> char \<Rightarrow> char \<Rightarrow> string option" where
  "unicode_escape a b c d =
     (case (hexval a, hexval b, hexval c, hexval d) of
        (Some x, Some y, Some z, Some t) \<Rightarrow> Some (utf8 (((x * 16 + y) * 16 + z) * 16 + t))
      | _ \<Rightarrow> None)"

fun parse_chars :: "string \<Rightarrow> (string \<times> string) option" where
  "parse_chars [] = None"
| "parse_chars (c # cs) =
     (if c = CHR 0x22 then Some ([], cs)
      else if c = CHR 0x5C then
        (case cs of
           [] \<Rightarrow> None
         | e # cs1 \<Rightarrow>
             if e = CHR ''u'' then
               (case cs1 of
                  a # b # c # d # cs2 \<Rightarrow>
                    (case unicode_escape a b c d of
                       None \<Rightarrow> None
                     | Some x \<Rightarrow> map_option (\<lambda>(s, r). (x @ s, r)) (parse_chars cs2))
                | _ \<Rightarrow> None)
             else
               (case unescape e of
                  None \<Rightarrow> None
                | Some x \<Rightarrow> map_option (\<lambda>(s, r). (x # s, r)) (parse_chars cs1)))
      else if (of_char c :: int) < 32 then None
      else map_option (\<lambda>(s, r). (c # s, r)) (parse_chars cs))"

text \<open>Two escapes (or raw byte triples) for a high and a low surrogate next to each other are
  one code point above \<open>FFFF\<close>: four bytes.\<close>

fun join_surrogates :: "string \<Rightarrow> string" where
  "join_surrogates (a # b # c # d # e # f # cs) =
     (if a = CHR 0xED \<and> 160 \<le> (of_char b :: int) \<and> (of_char b :: int) < 176 \<and> is_continuation c
         \<and> d = CHR 0xED \<and> 176 \<le> (of_char e :: int) \<and> (of_char e :: int) < 192 \<and> is_continuation f
      then utf8 (65536 + ((of_char b - 160) * 64 + (of_char c - 128)) * 1024
                       + ((of_char e - 176) * 64 + (of_char f - 128)))
           @ join_surrogates cs
      else a # join_surrogates (b # c # d # e # f # cs))"
| "join_surrogates (a # cs) = a # join_surrogates cs"
| "join_surrogates [] = []"

definition parse_string :: "string \<Rightarrow> (string \<times> string) option" where
  "parse_string s = map_option (\<lambda>(x, r). (join_surrogates x, r)) (parse_chars s)"

text \<open>The number grammar of JSON: an integer part without leading zero, an optional fraction
  with at least one digit, an optional exponent with at least one digit.\<close>

definition lex_int :: "string \<Rightarrow> (string \<times> string) option" where
  "lex_int s =
     (let ds = takeWhile is_digit s
      in if ds = [] then None
         else if hd ds = CHR ''0'' \<and> tl ds \<noteq> [] then None
         else Some (ds, dropWhile is_digit s))"

definition lex_frac :: "string \<Rightarrow> (string \<times> string) option" where
  "lex_frac s =
     (case s of
        c # t \<Rightarrow>
          if c = CHR ''.'' then
            (if takeWhile is_digit t = [] then None
             else Some (takeWhile is_digit t, dropWhile is_digit t))
          else Some ([], s)
      | [] \<Rightarrow> Some ([], s))"

definition lex_digits1 :: "string \<Rightarrow> (int \<times> string) option" where
  "lex_digits1 s =
     (if takeWhile is_digit s = [] then None
      else Some (digits_value (takeWhile is_digit s), dropWhile is_digit s))"

definition lex_exp :: "string \<Rightarrow> (int \<times> string) option" where
  "lex_exp s =
     (case s of
        c # t \<Rightarrow>
          if c = CHR ''e'' \<or> c = CHR ''E'' then
            (case t of
               d # u \<Rightarrow>
                 if d = CHR ''+'' then lex_digits1 u
                 else if d = CHR ''-'' then map_option (\<lambda>(x, r). (- x, r)) (lex_digits1 u)
                 else lex_digits1 t
             | [] \<Rightarrow> None)
          else Some (0, s)
      | [] \<Rightarrow> Some (0, s))"

text \<open>The value of a number literal with integer part \<open>ip\<close>, fraction \<open>fp\<close> and exponent
  \<open>x\<close>, in the normal form of the values: trailing zeros of the digits go into the
  exponent. The literal is read exactly: the rounding of a literal with more digits than
  a double holds, or beyond the range of a double, is not modelled.\<close>

definition number_value :: "bool \<Rightarrow> string \<Rightarrow> string \<Rightarrow> int \<Rightarrow> json" where
  "number_value negative ip fp x =
     (let m = digits_value (strip_zeros (ip @ fp));
          e = x - int (length fp) + int (length (ip @ fp)) - int (length (strip_zeros (ip @ fp)));
          sg = (if negative then - 1 else 1)
      in if m = 0 then JNum 0
         else if 0 \<le> e then JNum (sg * m * 10 ^ nat e)
         else JFrac (sg * m) e)"

definition parse_number :: "bool \<Rightarrow> string \<Rightarrow> (json \<times> string) option" where
  "parse_number negative s =
     (case lex_int s of
        None \<Rightarrow> None
      | Some (ip, s1) \<Rightarrow>
          (case lex_frac s1 of
             None \<Rightarrow> None
           | Some (fp, s2) \<Rightarrow>
               (case lex_exp s2 of
                  None \<Rightarrow> None
                | Some (x, s3) \<Rightarrow> Some (number_value negative ip fp x, s3))))"

text \<open>A property name is integer-like when it is the decimal of an integer below
  \<open>2^32 - 1\<close>. A new property with such a name goes before the names that are not
  integer-like and before the greater integer-like ones; any other new property goes
  last; a property that exists keeps its place and gets the new value.\<close>

definition is_index :: "string \<Rightarrow> bool" where
  "is_index k =
     (k \<noteq> [] \<and> list_all is_digit k \<and> (hd k = CHR ''0'' \<longrightarrow> tl k = [])
      \<and> digits_value k < 4294967295)"

fun insert_index :: "string \<Rightarrow> json \<Rightarrow> (string \<times> json) list \<Rightarrow> (string \<times> json) list" where
  "insert_index k v [] = [(k, v)]"
| "insert_index k v ((k', v') # kvs) =
     (if is_index k' \<and> digits_value k' < digits_value k then (k', v') # insert_index k v kvs
      else (k, v) # (k', v') # kvs)"

definition obj_set :: "string \<Rightarrow> json \<Rightarrow> (string \<times> json) list \<Rightarrow> (string \<times> json) list" where
  "obj_set k v kvs =
     (if k \<in> fst ` set kvs then map (\<lambda>(k', v'). if k' = k then (k', v) else (k', v')) kvs
      else if is_index k then insert_index k v kvs
      else kvs @ [(k, v)])"

definition literal :: "string \<Rightarrow> json \<Rightarrow> string \<Rightarrow> (json \<times> string) option" where
  "literal word v s =
     (if take (length word) s = word then Some (v, drop (length word) s) else None)"

fun parse_value :: "nat \<Rightarrow> string \<Rightarrow> (json \<times> string) option"
  and parse_elems :: "nat \<Rightarrow> string \<Rightarrow> (json list \<times> string) option"
  and parse_members :: "nat \<Rightarrow> (string \<times> json) list \<Rightarrow> string \<Rightarrow> ((string \<times> json) list \<times> string) option" where
  "parse_value 0 s = None"
| "parse_value (Suc n) s =
     (case skip_ws s of
        [] \<Rightarrow> None
      | c # cs \<Rightarrow>
          if c = CHR ''n'' then literal ''null'' JNull (c # cs)
          else if c = CHR ''t'' then literal ''true'' (JBool True) (c # cs)
          else if c = CHR ''f'' then literal ''false'' (JBool False) (c # cs)
          else if c = CHR 0x22 then map_option (\<lambda>(x, r). (JStr x, r)) (parse_string cs)
          else if c = CHR ''-'' then parse_number True cs
          else if is_digit c then parse_number False (c # cs)
          else if c = CHR ''['' then
            (case skip_ws cs of
               [] \<Rightarrow> None
             | d # ds \<Rightarrow> if d = CHR '']'' then Some (JArr [], ds)
                         else map_option (\<lambda>(x, r). (JArr x, r)) (parse_elems n cs))
          else if c = CHR ''{'' then
            (case skip_ws cs of
               [] \<Rightarrow> None
             | d # ds \<Rightarrow> if d = CHR ''}'' then Some (JObj [], ds)
                         else map_option (\<lambda>(x, r). (JObj x, r)) (parse_members n [] cs))
          else None)"
| "parse_elems 0 s = None"
| "parse_elems (Suc n) s =
     (case parse_value n s of
        None \<Rightarrow> None
      | Some (v, r) \<Rightarrow>
          (case skip_ws r of
             [] \<Rightarrow> None
           | c # cs \<Rightarrow>
               if c = CHR '','' then map_option (\<lambda>(vs, r'). (v # vs, r')) (parse_elems n cs)
               else if c = CHR '']'' then Some ([v], cs)
               else None))"
| "parse_members 0 acc s = None"
| "parse_members (Suc n) acc s =
     (case skip_ws s of
        [] \<Rightarrow> None
      | q # s1 \<Rightarrow>
          if q \<noteq> CHR 0x22 then None
          else
            (case parse_string s1 of
               None \<Rightarrow> None
             | Some (k, s2) \<Rightarrow>
                 (case skip_ws s2 of
                    [] \<Rightarrow> None
                  | col # s3 \<Rightarrow>
                      if col \<noteq> CHR '':'' then None
                      else
                        (case parse_value n s3 of
                           None \<Rightarrow> None
                         | Some (v, s4) \<Rightarrow>
                             (case skip_ws s4 of
                                [] \<Rightarrow> None
                              | c # cs \<Rightarrow>
                                  if c = CHR '','' then parse_members n (obj_set k v acc) cs
                                  else if c = CHR ''}'' then Some (obj_set k v acc, cs)
                                  else None)))))"

definition JSON_stringify :: "json \<Rightarrow> string" where
  "JSON_stringify v = print_value v"

definition JSON_parse :: "string \<Rightarrow> json option" where
  "JSON_parse s =
     (case parse_value (Suc (length s)) s of
        None \<Rightarrow> None
      | Some (v, r) \<Rightarrow> if skip_ws r = [] then Some v else None)"

subsection \<open>The process around the instance\<close>

datatype source_file = Telemetry_ts | Part_000

datatype runtime = Deno | Node | Bun | OtherRuntime

text \<open>
  What the code calls on its collaborators, in call order. A call on a REST client
  names the client by the base URL and token it was created with; a call on a
  \<open>FileIPC\<close> names it by its path.
\<close>

datatype effect =
    SendTelemetry string string "json option"
  | SendIpc string string string string "json option"
  | SubscribeIpc string string
  | RestClientClose string string
  | FileIPC_new string
  | FileIPC_sendData string string
  | FileIPC_close string bool
  | Events_emit "json option" "json option"
  | Events_close
  | HandlerRan nat "json option"
  | SetTimeout nat js_number
  | ClearTimeout "nat option"
  | Deno_unrefTimer nat
  | Timer_unref nat
  | ConsoleError error

text \<open>
  A listener registered with \<open>on\<close> is application code. Three kinds are enough here: one
  that only records that it ran, one that calls \<open>close()\<close> on the instance, one that throws.
\<close>

datatype handler = Log nat | CallClose | Throw

record telemetry =
  oid :: nat
  events :: "(string \<times> handler) list"
  intervalSeconds :: js_number
  timer :: "nat option"
  aborted :: bool
  ipc :: "string option"
  ipcClient :: "(string \<times> string) option"

text \<open>What the process is given and never changes.\<close>

record config =
  env :: "string \<Rightarrow> string option"
  dirs :: "string list"
  CurrentRuntime :: runtime
  mem_external :: "int option"
  mem_heapTotal :: int
  mem_heapUsed :: int
  mem_rss :: int
  cwd :: "string option"
  now :: string
  JSON_parse_of :: "string \<Rightarrow> json option"
  JSON_stringify_of :: "json \<Rightarrow> string"
  write_fails :: "string list"
  rest_fails :: bool

text \<open>
  \<open>pending_timers\<close> are the timers set by \<open>telemetryWatchdog\<close> that have neither fired
  nor been cleared. \<open>ticks\<close> counts the invocations of \<open>telemetryWatchdog\<close>.
  \<open>watchdog_suspended\<close> counts the invocations waiting at their \<open>await\<close>;
  \<open>checkIpc_suspended\<close> says that \<open>checkIpc\<close> waits at \<open>await isDir(..)\<close>;
  \<open>receiving\<close> says that the \<open>for await\<close> loop of \<open>checkIpc\<close> is waiting for a batch.
\<close>

record world =
  cfg :: config
  pending_timers :: "nat list"
  next_timer :: nat
  trace :: "effect list"
  ticks :: nat
  watchdog_suspended :: nat
  checkIpc_suspended :: bool
  receiving :: bool

type_synonym st = "telemetry \<times> world"

record proc =
  "instance" :: "telemetry option"
  next_oid :: nat
  rt :: world

record message =
  data :: "string option"

definition getEnv :: "world \<Rightarrow> string \<Rightarrow> string option" where
  "getEnv w k = env (cfg w) k"

definition isDir :: "world \<Rightarrow> string \<Rightarrow> bool" where
  "isDir w p = (p \<in> set (dirs (cfg w)))"

definition logged :: "effect \<Rightarrow> world \<Rightarrow> world" where
  "logged e w = w\<lparr>trace := trace w @ [e]\<rparr>"

text \<open>\<open>setTimeout\<close> hands out a positive id; \<open>clearTimeout\<close> of an id that is not pending
  (or of \<open>undefined\<close>) does nothing.\<close>

definition setTimeout :: "js_number \<Rightarrow> world \<Rightarrow> nat \<times> world" where
  "setTimeout seconds w =
     (let h = Suc (next_timer w)
      in (h, logged (SetTimeout h seconds)
               (w\<lparr>pending_timers := pending_timers w @ [h], next_timer := h\<rparr>)))"

definition clearTimeout :: "nat option \<Rightarrow> world \<Rightarrow> world" where
  "clearTimeout t w =
     logged (ClearTimeout t)
       (case t of None \<Rightarrow> w
        | Some h \<Rightarrow> w\<lparr>pending_timers := removeAll h (pending_timers w)\<rparr>)"

subsection \<open>The event relay\<close>

text \<open>
  Modelled from the spec: the class \<open>EventEmitter\<close> of the package \<open>@pup/common\<close> is not
  under src/. The spec describes it as a registry of (event name, listener) pairs, many
  listeners per name, invoked in insertion order by a synchronous dispatch, with a
  shutdown that releases all listeners. The field \<open>events\<close> of the instance is that registry.
\<close>

definition events_on :: "string \<Rightarrow> handler \<Rightarrow> telemetry \<Rightarrow> telemetry" where
  "events_on event fn this = this\<lparr>events := events this @ [(event, fn)]\<rparr>"

definition events_off :: "string \<Rightarrow> handler \<Rightarrow> telemetry \<Rightarrow> telemetry" where
  "events_off event fn this = this\<lparr>events := filter (\<lambda>x. x \<noteq> (event, fn)) (events this)\<rparr>"

definition listeners :: "telemetry \<Rightarrow> string \<Rightarrow> handler list" where
  "listeners this event = map snd (filter (\<lambda>x. fst x = event) (events this))"

subsection \<open>\<open>emit\<close>\<close>

text \<open>
  An object literal whose property values may be \<open>undefined\<close>, as \<open>JSON.stringify\<close> and a
  REST body see it: a property whose value is \<open>undefined\<close> is left out.
\<close>

definition object_of :: "(string \<times> json option) list \<Rightarrow> json" where
  "object_of kvs = JObj (concat (map (\<lambda>(k, v). case v of None \<Rightarrow> [] | Some x \<Rightarrow> [(k, x)]) kvs))"

text \<open>
  \<open>emit\<close> of src/telemetry.ts, lines 187-226. Nothing in the \<open>try\<close> block of the branch
  for \<open>"main"\<close> throws here (\<open>sendTelemetry\<close> is not awaited), so its \<open>catch\<close> has no case.
  In the other branch \<open>ipc.sendData\<close> is awaited inside \<open>try/finally\<close> with no
  \<open>catch\<close>: when the write fails, \<open>ipc.close(true)\<close> runs and the error leaves \<open>emit\<close>.
\<close>

definition emit :: "string \<Rightarrow> string \<Rightarrow> json option \<Rightarrow> st \<Rightarrow> error option \<times> st" where
  "emit targetProcessId event eventData s =
     (case s of (this, w) \<Rightarrow>
        if targetProcessId = ''main'' then
          (let pupApiHostname = getEnv w ''PUP_API_HOSTNAME'';
               pupApiPort = getEnv w ''PUP_API_PORT'';
               pupApiToken = getEnv w ''PUP_API_TOKEN''
           in if truthy pupApiHostname \<and> truthy pupApiPort \<and> truthy pupApiToken then
                (let apiBaseUrl = ''http://'' @ interpolate pupApiHostname @ '':'' @ interpolate pupApiPort
                 in (None, (this, logged (SendTelemetry apiBaseUrl (interpolate pupApiToken) eventData) w)))
              else (None, s))
        else
          (let pupTempPath = getEnv w ''PUP_TEMP_STORAGE''
           in if truthy pupTempPath \<and> isDir w (interpolate pupTempPath) \<and> targetProcessId \<noteq> [] then
                (let ipcPath = interpolate pupTempPath @ ''/.'' @ targetProcessId @ ''.ipc'';
                     w1 = logged (FileIPC_new ipcPath) w;
                     message = object_of [(''event'', Some (JStr event)), (''eventData'', eventData)];
                     w2 = logged (FileIPC_sendData ipcPath (JSON_stringify_of (cfg w) message)) w1;
                     w3 = logged (FileIPC_close ipcPath True) w2
                 in (if ipcPath \<in> set (write_fails (cfg w)) then Some IOError else None, (this, w3)))
              else (None, s)))"

text \<open>
  \<open>emit\<close> of src/unnamed/part_000, lines 178-203. A failure of the awaited \<open>sendIpc\<close> is
  caught and printed.
\<close>

definition emit_part_000 :: "string \<Rightarrow> string \<Rightarrow> json option \<Rightarrow> st \<Rightarrow> error option \<times> st" where
  "emit_part_000 targetProcessId event eventData s =
     (case s of (this, w) \<Rightarrow>
        (let pupApiHostname = getEnv w ''PUP_API_HOSTNAME'';
             pupApiPort = getEnv w ''PUP_API_PORT'';
             pupApiToken = getEnv w ''PUP_API_TOKEN''
         in if truthy pupApiHostname \<and> truthy pupApiPort \<and> truthy pupApiToken then
              (let apiBaseUrl = ''http://'' @ interpolate pupApiHostname @ '':'' @ interpolate pupApiPort
               in if targetProcessId = ''main'' then
                    (None, (this, logged (SendTelemetry apiBaseUrl (interpolate pupApiToken) eventData) w))
                  else
                    (let w1 = logged (SendIpc apiBaseUrl (interpolate pupApiToken) targetProcessId event eventData) w
                     in if rest_fails (cfg w) then (None, (this, logged (ConsoleError IOError) w1))
                        else (None, (this, w1))))
            else (None, s)))"

definition this_emit :: "source_file \<Rightarrow> string \<Rightarrow> string \<Rightarrow> json option \<Rightarrow> st \<Rightarrow> error option \<times> st" where
  "this_emit src = (case src of Telemetry_ts \<Rightarrow> emit | Part_000 \<Rightarrow> emit_part_000)"

subsection \<open>\<open>close\<close>\<close>

text \<open>\<open>close\<close> of src/telemetry.ts, lines 228-240. \<open>if (this.timer)\<close> is false for \<open>undefined\<close> and for \<open>0\<close>.\<close>

definition close :: "st \<Rightarrow> error option \<times> st" where
  "close s =
     (case s of (this, w) \<Rightarrow>
        (let this1 = this\<lparr>aborted := True\<rparr>;
             w1 = (case timer this1 of None \<Rightarrow> w
                   | Some h \<Rightarrow> if h \<noteq> 0 then clearTimeout (Some h) w else w);
             w2 = (case ipc this1 of None \<Rightarrow> w1
                   | Some path \<Rightarrow> logged (FileIPC_close path False) w1);
             this2 = this1\<lparr>events := []\<rparr>;
             w3 = logged Events_close w2
         in (None, (this2, w3))))"

text \<open>\<open>close\<close> of src/unnamed/part_000, lines 205-217.\<close>

definition close_part_000 :: "st \<Rightarrow> error option \<times> st" where
  "close_part_000 s =
     (case s of (this, w) \<Rightarrow>
        (let this1 = this\<lparr>aborted := True\<rparr>;
             w1 = (case timer this1 of None \<Rightarrow> w
                   | Some h \<Rightarrow> if h \<noteq> 0 then clearTimeout (Some h) w else w);
             w2 = (case ipcClient this1 of None \<Rightarrow> w1
                   | Some (url, token) \<Rightarrow> logged (RestClientClose url token) w1);
             this2 = this1\<lparr>events := []\<rparr>;
             w3 = logged Events_close w2
         in (None, (this2, w3))))"

definition this_close :: "source_file \<Rightarrow> st \<Rightarrow> error option \<times> st" where
  "this_close src = (case src of Telemetry_ts \<Rightarrow> close | Part_000 \<Rightarrow> close_part_000)"

subsection \<open>Dispatch to the listeners\<close>

fun run_handler :: "source_file \<Rightarrow> handler \<Rightarrow> json option \<Rightarrow> st \<Rightarrow> error option \<times> st" where
  "run_handler src (Log k) d s = (None, (fst s, logged (HandlerRan k d) (snd s)))"
| "run_handler src CallClose d s = this_close src s"
| "run_handler src Throw d s = (Some UserError, s)"

text \<open>The listeners registered at the time of the dispatch run in order; one that throws
  ends the dispatch and the error reaches the caller of \<open>events.emit\<close>.\<close>

fun run_handlers :: "source_file \<Rightarrow> handler list \<Rightarrow> json option \<Rightarrow> st \<Rightarrow> error option \<times> st" where
  "run_handlers src [] d s = (None, s)"
| "run_handlers src (h # hs) d s =
     (case run_handler src h d s of
        (Some e, s1) \<Rightarrow> (Some e, s1)
      | (None, s1) \<Rightarrow> run_handlers src hs d s1)"

text \<open>\<open>this.events.emit(event, eventData)\<close>. The call is recorded with its arguments as
  given; listeners are looked up when the name is a string.\<close>

definition events_emit :: "source_file \<Rightarrow> json option \<Rightarrow> json option \<Rightarrow> st \<Rightarrow> error option \<times> st" where
  "events_emit src event eventData s =
     (case s of (this, w) \<Rightarrow>
        (let s1 = (this, logged (Events_emit event eventData) w)
         in case event of
              Some (JStr name) \<Rightarrow> run_handlers src (listeners this name) eventData s1
            | _ \<Rightarrow> (None, s1)))"

subsection \<open>The telemetry watchdog\<close>

text \<open>
  \<open>sendMainTelemetry\<close>, lines 83-110 of src/telemetry.ts. \<open>cwd()\<close> may throw (\<open>cwd\<close> of the
  configuration is \<open>None\<close>); the object literal evaluates it before \<open>emit\<close> is called.
  The promise returned by \<open>this.emit\<close> is dropped, so no error of \<open>emit\<close> reaches this method.
\<close>

definition memoryUsage :: "world \<Rightarrow> json" where
  "memoryUsage w =
     (case CurrentRuntime (cfg w) of
        Deno \<Rightarrow> object_of [(''external'', map_option JNum (mem_external (cfg w))),
                           (''heapTotal'', Some (JNum (mem_heapTotal (cfg w)))),
                           (''heapUsed'', Some (JNum (mem_heapUsed (cfg w)))),
                           (''rss'', Some (JNum (mem_rss (cfg w))))]
      | OtherRuntime \<Rightarrow> JObj [(''external'', JNum 0), (''heapTotal'', JNum 0),
                              (''heapUsed'', JNum 0), (''rss'', JNum 0)]
      | _ \<Rightarrow> JObj [(''external'', JNum (case mem_external (cfg w) of None \<Rightarrow> 0 | Some x \<Rightarrow> x)),
                   (''heapTotal'', JNum (mem_heapTotal (cfg w))),
                   (''heapUsed'', JNum (mem_heapUsed (cfg w))),
                   (''rss'', JNum (mem_rss (cfg w)))])"

definition sendMainTelemetry :: "source_file \<Rightarrow> st \<Rightarrow> error option \<times> st" where
  "sendMainTelemetry src s =
     (case s of (this, w) \<Rightarrow>
        (let pupProcessId = getEnv w ''PUP_PROCESS_ID'';
             memory = memoryUsage w
         in if truthy pupProcessId then
              (case cwd (cfg w) of
                 None \<Rightarrow> (Some IOError, s)
               | Some dir \<Rightarrow>
                   (let data = JObj [(''sender'', JStr (interpolate pupProcessId)),
                                     (''memory'', memory),
                                     (''sent'', JStr (now (cfg w))),
                                     (''cwd'', JStr dir)]
                    in (None, snd (this_emit src ''main'' ''telemetry'' (Some data) s))))
            else (None, s)))"

text \<open>The \<open>finally\<close> block of \<open>telemetryWatchdog\<close>, lines 157-176.\<close>

definition telemetryWatchdog_finally :: "st \<Rightarrow> st" where
  "telemetryWatchdog_finally s =
     (case s of (this, w) \<Rightarrow>
        (let w1 = clearTimeout (timer this) w
         in if \<not> aborted this then
              (case setTimeout (intervalSeconds this) w1 of (h, w2) \<Rightarrow>
                 (let this1 = this\<lparr>timer := Some h\<rparr>;
                      w3 = (case CurrentRuntime (cfg w2) of
                              Deno \<Rightarrow> logged (Deno_unrefTimer h) w2
                            | OtherRuntime \<Rightarrow> w2
                            | _ \<Rightarrow> logged (Timer_unref h) w2)
                  in (this1, w3)))
            else (this, w1)))"

text \<open>
  \<open>telemetryWatchdog\<close>, lines 152-177, up to its \<open>await\<close>. When \<open>sendMainTelemetry\<close> throws,
  the error is dropped and the \<open>finally\<close> block runs in the same turn; when it returns,
  the method waits at \<open>await\<close> and the \<open>finally\<close> block runs in a later turn.
\<close>

definition telemetryWatchdog :: "source_file \<Rightarrow> st \<Rightarrow> st" where
  "telemetryWatchdog src s =
     (case s of (this, w) \<Rightarrow>
        (case sendMainTelemetry src (this, w\<lparr>ticks := Suc (ticks w)\<rparr>) of
           (Some e, s1) \<Rightarrow> telemetryWatchdog_finally s1
         | (None, (this1, w1)) \<Rightarrow> (this1, w1\<lparr>watchdog_suspended := Suc (watchdog_suspended w1)\<rparr>)))"

subsection \<open>The inbound path of src/telemetry.ts\<close>

text \<open>The body of the \<open>try\<close> block of lines 130-137, for one message.\<close>

definition process_message_try :: "message \<Rightarrow> st \<Rightarrow> error option \<times> st" where
  "process_message_try message s =
     (if truthy (data message) then
        (case JSON_parse_of (cfg (snd s)) (interpolate (data message)) of
           None \<Rightarrow> (Some SyntaxError, s)
         | Some parsedMessage \<Rightarrow>
             (case get_prop parsedMessage ''event'' of
                Inl e \<Rightarrow> (Some e, s)
              | Inr event \<Rightarrow>
                  (case get_prop parsedMessage ''eventData'' of
                     Inl e \<Rightarrow> (Some e, s)
                   | Inr eventData \<Rightarrow> events_emit Telemetry_ts event eventData s)))
      else (None, s))"

text \<open>\<open>try { .. } catch (_e) { }\<close>: whatever the body threw, the loop goes on with the state
  the body left.\<close>

definition process_message :: "message \<Rightarrow> st \<Rightarrow> st" where
  "process_message message s = snd (process_message_try message s)"

text \<open>\<open>for (const message of messages)\<close>, lines 129-141.\<close>

fun process_messages :: "message list \<Rightarrow> st \<Rightarrow> st" where
  "process_messages [] s = s"
| "process_messages (message # messages) s = process_messages messages (process_message message s)"

text \<open>\<open>checkIpc\<close>, lines 112-146, up to \<open>await isDir(pupTempPath)\<close>: the \<open>&&\<close> stops
  at a falsy \<open>pupTempPath\<close>.\<close>

definition checkIpc :: "st \<Rightarrow> st" where
  "checkIpc s =
     (case s of (this, w) \<Rightarrow>
        (let pupTempPath = getEnv w ''PUP_TEMP_STORAGE''
         in if truthy pupTempPath then (this, w\<lparr>checkIpc_suspended := True\<rparr>) else s))"

text \<open>\<open>checkIpc\<close> from the answer of \<open>isDir\<close> to the first wait for a batch.\<close>

definition checkIpc_resume :: "st \<Rightarrow> st" where
  "checkIpc_resume s =
     (case s of (this, w0) \<Rightarrow>
        (let w = w0\<lparr>checkIpc_suspended := False\<rparr>;
             pupTempPath = getEnv w ''PUP_TEMP_STORAGE'';
             pupProcessId = getEnv w ''PUP_PROCESS_ID''
         in if isDir w (interpolate pupTempPath) \<and> truthy pupProcessId then
              (let ipcPath = interpolate pupTempPath @ ''/.'' @ interpolate pupProcessId @ ''.ipc''
               in if \<not> aborted this then
                    (this\<lparr>ipc := Some ipcPath\<rparr>,
                     (logged (FileIPC_new ipcPath) w)\<lparr>receiving := True\<rparr>)
                  else (this, w))
            else (this, w)))"

text \<open>One turn of \<open>for await (const messages of this.ipc.receiveData())\<close>, lines 123-143.\<close>

definition checkIpc_batch :: "message list \<Rightarrow> st \<Rightarrow> st" where
  "checkIpc_batch messages s =
     (case s of (this, w) \<Rightarrow>
        if aborted this then (this, w\<lparr>receiving := False\<rparr>)
        else if length messages > 0 then process_messages messages s
        else s)"

subsection \<open>The inbound path of src/unnamed/part_000\<close>

text \<open>\<open>checkIpc\<close>, lines 115-137: it does not wait.\<close>

definition checkIpc_part_000 :: "st \<Rightarrow> st" where
  "checkIpc_part_000 s =
     (case s of (this, w) \<Rightarrow>
        (let pupApiHostname = getEnv w ''PUP_API_HOSTNAME'';
             pupApiPort = getEnv w ''PUP_API_PORT'';
             pupApiToken = getEnv w ''PUP_API_TOKEN''
         in if truthy pupApiHostname \<and> truthy pupApiPort \<and> truthy pupApiToken then
              (let apiBaseUrl = ''http://'' @ interpolate pupApiHostname @ '':'' @ interpolate pupApiPort
               in (this\<lparr>ipcClient := Some (apiBaseUrl, interpolate pupApiToken)\<rparr>,
                   logged (SubscribeIpc apiBaseUrl (interpolate pupApiToken)) w))
            else s))"

text \<open>\<open>ipcHandler\<close>, lines 125-131.\<close>

definition ipcHandler :: "json option \<Rightarrow> st \<Rightarrow> error option \<times> st" where
  "ipcHandler eventData s =
     (let pupProcessId = getEnv (snd s) ''PUP_PROCESS_ID''
      in if opt_prop eventData ''target'' = map_option JStr pupProcessId
            \<and> js_truthy (opt_prop eventData ''event'')
         then events_emit Part_000 (opt_prop eventData ''event'') (opt_prop eventData ''eventData'') s
         else (None, s))"

definition this_checkIpc :: "source_file \<Rightarrow> st \<Rightarrow> st" where
  "this_checkIpc src = (case src of Telemetry_ts \<Rightarrow> checkIpc | Part_000 \<Rightarrow> checkIpc_part_000)"

subsection \<open>The constructor\<close>

text \<open>
  Lines 56-78 of src/telemetry.ts (59-81 of part_000). \<open>None\<close> is a call without
  argument (or with \<open>undefined\<close>): the default parameter 5 applies. \<open>new\<close> allocates
  \<open>this\<close> with the field initialisers (\<open>intervalSeconds = 15\<close>, \<open>aborted = false\<close>, no
  timer) before the body runs; the body returns the object of the static field
  \<open>instance\<close> when there is one. The result is the identity of the object returned.
  The branch for a call without \<open>new\<close> only forwards to \<open>new\<close>.
\<close>

definition new_PupTelemetry :: "source_file \<Rightarrow> js_number option \<Rightarrow> proc \<Rightarrow> nat \<times> proc" where
  "new_PupTelemetry src arg p =
     (let intervalSeconds0 = (case arg of None \<Rightarrow> Fin 5 | Some n \<Rightarrow> n);
          this = \<lparr>oid = next_oid p, events = [], intervalSeconds = Fin 15, timer = None,
                  aborted = False, ipc = None, ipcClient = None\<rparr>;
          p1 = p\<lparr>next_oid := Suc (next_oid p)\<rparr>
      in case instance p1 of
           Some existing \<Rightarrow> (oid existing, p1)
         | None \<Rightarrow>
             (let intervalSeconds1 =
                    (if js_not intervalSeconds0 \<or> js_lt intervalSeconds0 (Fin 1) then Fin 1
                     else intervalSeconds0);
                  intervalSeconds2 =
                    (if js_gt intervalSeconds1 (Fin 180) then Fin 180 else intervalSeconds1);
                  this1 = this\<lparr>intervalSeconds := intervalSeconds2\<rparr>;
                  s1 = telemetryWatchdog src (this1, rt p1);
                  s2 = this_checkIpc src s1
              in (oid (fst s2), p1\<lparr>instance := Some (fst s2), rt := snd s2\<rparr>)))"

subsection \<open>The process as a state machine\<close>

text \<open>
  What can happen to the process, one turn each: application code calls the
  constructor or a public method of the instance, a pending timer fires, a suspended
  method resumes, the mailbox yields a batch, the main process relays a payload.
\<close>

datatype event =
    Construct "js_number option"
  | DoClose
  | DoOn string handler
  | DoOff string handler
  | DoEmit string string "json option"
  | TimerFires nat
  | WatchdogResumes
  | CheckIpcResumes
  | BatchArrives "message list"
  | RelayArrives "json option"

fun turn :: "source_file \<Rightarrow> event \<Rightarrow> st \<Rightarrow> st" where
  "turn src (Construct arg) s = s"
| "turn src DoClose s = snd (this_close src s)"
| "turn src (DoOn event fn) s = (events_on event fn (fst s), snd s)"
| "turn src (DoOff event fn) s = (events_off event fn (fst s), snd s)"
| "turn src (DoEmit targetProcessId event eventData) s =
     snd (this_emit src targetProcessId event eventData s)"
| "turn src (TimerFires h) s =
     (if h \<in> set (pending_timers (snd s)) then
        telemetryWatchdog src
          (fst s, (snd s)\<lparr>pending_timers := removeAll h (pending_timers (snd s))\<rparr>)
      else s)"
| "turn src WatchdogResumes s =
     (if watchdog_suspended (snd s) > 0 then
        telemetryWatchdog_finally
          (fst s, (snd s)\<lparr>watchdog_suspended := watchdog_suspended (snd s) - 1\<rparr>)
      else s)"
| "turn src CheckIpcResumes s =
     (if src = Telemetry_ts \<and> checkIpc_suspended (snd s) then checkIpc_resume s else s)"
| "turn src (BatchArrives messages) s =
     (if src = Telemetry_ts \<and> receiving (snd s) then checkIpc_batch messages s else s)"
| "turn src (RelayArrives payload) s =
     (if src = Part_000 \<and> ipcClient (fst s) \<noteq> None then snd (ipcHandler payload s) else s)"

definition step :: "source_file \<Rightarrow> event \<Rightarrow> proc \<Rightarrow> proc" where
  "step src ev p =
     (case ev of
        Construct arg \<Rightarrow> snd (new_PupTelemetry src arg p)
      | _ \<Rightarrow>
         (case instance p of
            None \<Rightarrow> p
          | Some this \<Rightarrow>
              (let s = turn src ev (this, rt p)
               in p\<lparr>instance := Some (fst s), rt := snd s\<rparr>)))"

fun run :: "source_file \<Rightarrow> event list \<Rightarrow> proc \<Rightarrow> proc" where
  "run src [] p = p"
| "run src (ev # evs) p = run src evs (step src ev p)"

text \<open>The process before any code of the class has run.\<close>

definition boot :: "config \<Rightarrow> proc" where
  "boot c =
     \<lparr>instance = None, next_oid = 0,
      rt = \<lparr>cfg = c, pending_timers = [], next_timer = 0, trace = [], ticks = 0,
            watchdog_suspended = 0, checkIpc_suspended = False, receiving = False\<rparr>\<rparr>"

subsection \<open>Reading the record of calls\<close>

text \<open>What a call into the secure channel transmits: \<open>sendTelemetry(eventData)\<close> is given the
  data alone, \<open>sendIpc({target, event, eventData})\<close> all three.\<close>

fun call_target :: "effect \<Rightarrow> string option" where
  "call_target (SendIpc url token target event eventData) = Some target"
| "call_target _ = None"

fun call_event :: "effect \<Rightarrow> string option" where
  "call_event (SendIpc url token target event eventData) = Some event"
| "call_event _ = None"

fun call_data :: "effect \<Rightarrow> json option" where
  "call_data (SendIpc url token target event eventData) = eventData"
| "call_data (SendTelemetry url token eventData) = eventData"
| "call_data _ = None"

fun is_secure_channel_call :: "effect \<Rightarrow> bool" where
  "is_secure_channel_call (SendTelemetry url token eventData) = True"
| "is_secure_channel_call (SendIpc url token target event eventData) = True"
| "is_secure_channel_call _ = False"

fun is_report_telemetry :: "effect \<Rightarrow> bool" where
  "is_report_telemetry (SendTelemetry url token eventData) = True"
| "is_report_telemetry _ = False"

fun is_mailbox_call :: "effect \<Rightarrow> bool" where
  "is_mailbox_call (FileIPC_new path) = True"
| "is_mailbox_call (FileIPC_sendData path text) = True"
| "is_mailbox_call (FileIPC_close path leaveFile) = True"
| "is_mailbox_call _ = False"

text \<open>The calls a step added to the record.\<close>

definition added :: "world \<Rightarrow> world \<Rightarrow> effect list" where
  "added w w' = drop (length (trace w)) (trace w')"

text \<open>The dispatches to the event relay, in order, as (event, eventData).\<close>

fun dispatches :: "effect list \<Rightarrow> (json option \<times> json option) list" where
  "dispatches [] = []"
| "dispatches (Events_emit event eventData # es) = (event, eventData) # dispatches es"
| "dispatches (_ # es) = dispatches es"

text \<open>The timers set, and the texts written to mailboxes.\<close>

fun timers_set :: "effect list \<Rightarrow> nat list" where
  "timers_set [] = []"
| "timers_set (SetTimeout h seconds # es) = h # timers_set es"
| "timers_set (_ # es) = timers_set es"

fun sent_texts :: "effect list \<Rightarrow> string list" where
  "sent_texts [] = []"
| "sent_texts (FileIPC_sendData path text # es) = text # sent_texts es"
| "sent_texts (_ # es) = sent_texts es"

text \<open>No dispatch is recorded after the first \<open>events.close()\<close>, which \<open>close()\<close> calls in
  the turn in which it sets \<open>aborted\<close>.\<close>

definition no_dispatch_after_close :: "effect list \<Rightarrow> bool" where
  "no_dispatch_after_close es = (dispatches (dropWhile (\<lambda>e. e \<noteq> Events_close) es) = [])"

text \<open>What the inbound loop of src/telemetry.ts hands to the event relay for one message:
  nothing for a message without text, for a text that does not parse and for the
  text \<open>null\<close>; the properties \<open>event\<close> and \<open>eventData\<close> of the parsed value otherwise.\<close>

definition envelope_of :: "config \<Rightarrow> message \<Rightarrow> (json option \<times> json option) option" where
  "envelope_of c message =
     (if truthy (data message) then
        (case JSON_parse_of c (interpolate (data message)) of
           None \<Rightarrow> None
         | Some JNull \<Rightarrow> None
         | Some (JObj kvs) \<Rightarrow> Some (map_of kvs ''event'', map_of kvs ''eventData'')
         | Some _ \<Rightarrow> Some (None, None))
      else None)"


subsection \<open>Invariants of the process\<close>

text \<open>Every pending watchdog timer is the one the instance holds in \<open>timer\<close>, and none is
  pending once \<open>aborted\<close> is set.\<close>

definition timers_ok :: "st \<Rightarrow> bool" where
  "timers_ok s =
     (list_all (\<lambda>h. timer (fst s) = Some h \<and> h \<noteq> 0) (pending_timers (snd s))
      \<and> (aborted (fst s) \<longrightarrow> pending_timers (snd s) = []))"

definition proc_ok :: "proc \<Rightarrow> bool" where
  "proc_ok p =
     (case instance p of
        None \<Rightarrow> pending_timers (rt p) = []
      | Some this \<Rightarrow> timers_ok (this, rt p))"

text \<open>What a turn that runs neither the constructor nor the watchdog leaves alone.\<close>

definition quiet :: "st \<Rightarrow> st \<Rightarrow> bool" where
  "quiet s s' =
     (oid (fst s') = oid (fst s)
      \<and> intervalSeconds (fst s') = intervalSeconds (fst s)
      \<and> timer (fst s') = timer (fst s)
      \<and> (aborted (fst s) \<longrightarrow> aborted (fst s'))
      \<and> set (pending_timers (snd s')) \<subseteq> set (pending_timers (snd s))
      \<and> (aborted (fst s') \<and> \<not> aborted (fst s) \<longrightarrow>
           list_all (\<lambda>h. timer (fst s) \<noteq> Some h \<or> h = 0) (pending_timers (snd s')))
      \<and> cfg (snd s') = cfg (snd s)
      \<and> ticks (snd s') = ticks (snd s)
      \<and> next_timer (snd s') = next_timer (snd s)
      \<and> receiving (snd s') = receiving (snd s)
      \<and> timers_set (trace (snd s')) = timers_set (trace (snd s)))"

text \<open>The instance is closed: \<open>aborted\<close> is set and no watchdog timer is pending.\<close>

definition closed_down :: "proc \<Rightarrow> bool" where
  "closed_down p = (case instance p of None \<Rightarrow> False
               | Some this \<Rightarrow> aborted this \<and> pending_timers (rt p) = [])"

subsection \<open>Two configurations\<close>

text \<open>A worker \<open>w1\<close> started by the main process, with the endpoint of the main process and
  a temporary directory, and the same worker without the endpoint.\<close>

definition env_w1 :: "string \<Rightarrow> string option" where
  "env_w1 k =
     (if k = ''PUP_PROCESS_ID'' then Some ''w1''
      else if k = ''PUP_API_HOSTNAME'' then Some ''localhost''
      else if k = ''PUP_API_PORT'' then Some ''8080''
      else if k = ''PUP_API_TOKEN'' then Some ''secret''
      else if k = ''PUP_TEMP_STORAGE'' then Some ''/tmp/pup''
      else None)"

definition config_w1 :: config where
  "config_w1 =
     \<lparr>env = env_w1, dirs = [''/tmp/pup''], CurrentRuntime = Deno,
      mem_external = Some 1, mem_heapTotal = 4, mem_heapUsed = 3, mem_rss = 9,
      cwd = Some ''/app'', now = ''2024-01-01T00:00:00.000Z'',
      JSON_parse_of = JSON_parse, JSON_stringify_of = JSON_stringify,
      write_fails = [], rest_fails = False\<rparr>"

text \<open>An instance as the constructor leaves it when called without argument, before any
  timer is set.\<close>

definition instance_w1 :: telemetry where
  "instance_w1 =
     \<lparr>oid = 0, events = [], intervalSeconds = Fin 5, timer = None, aborted = False,
      ipc = None, ipcClient = None\<rparr>"

definition config_standalone :: config where
  "config_standalone =
     config_w1\<lparr>env := (\<lambda>k. if k = ''PUP_PROCESS_ID'' then Some ''w1'' else None), dirs := []\<rparr>"

subsection \<open>The values that \<open>JSON_parse\<close> returns\<close>

text \<open>
  \<open>canonical v\<close>: the value is written the way \<open>JSON_parse\<close> writes its results. A fraction
  has a negative exponent and no trailing zero; in a string no high surrogate stands before
  a low one (the two are one code point of four bytes); the list of an object is the order
  in which its properties enumerate, that is, defining them one after the other gives the
  list back.
  \<open>follows r\<close>: the text \<open>r\<close> after a printed value is empty or starts with a comma or
  a closing bracket. \<open>fuel v\<close> bounds the nesting bound the parser needs for \<open>v\<close>.
\<close>

definition define_all :: "(string \<times> json) list \<Rightarrow> (string \<times> json) list \<Rightarrow> (string \<times> json) list" where
  "define_all acc kvs = foldl (\<lambda>a kv. obj_set (fst kv) (snd kv) a) acc kvs"

fun canonical :: "json \<Rightarrow> bool" where
  "canonical (JFrac s e) = (e < 0 \<and> \<not> 10 dvd s)"
| "canonical (JStr s) = (join_surrogates s = s)"
| "canonical (JArr vs) = list_all canonical vs"
| "canonical (JObj kvs) =
     (list_all (\<lambda>k. join_surrogates k = k) (map fst kvs) \<and> list_all canonical (map snd kvs)
      \<and> define_all [] kvs = kvs)"
| "canonical _ = True"

definition follows :: "string \<Rightarrow> bool" where
  "follows r = (case r of [] \<Rightarrow> True | c # _ \<Rightarrow> c = CHR '','' \<or> c = CHR '']'' \<or> c = CHR ''}'')"

fun fuel :: "json \<Rightarrow> nat" where
  "fuel (JArr vs) = Suc (sum_list (map (\<lambda>v. Suc (fuel v)) vs))"
| "fuel (JObj kvs) = Suc (sum_list (map (\<lambda>kv. Suc (fuel (snd kv))) kvs))"
| "fuel _ = Suc 0"

subsection \<open>Messages and a scenario\<close>

text \<open>Two well-formed mailbox messages, \<open>{"event":"stop"}\<close> and \<open>{"event":"ping"}\<close>, a
  malformed one, and a run of src/telemetry.ts in which the application registers a
  listener for \<open>stop\<close> that calls \<open>close()\<close>, and the mailbox then yields both
  well-formed messages in one batch.\<close>

definition msg_stop :: message where
  "msg_stop = \<lparr>data = Some (''{'' @ CHR 0x22 # ''event'' @ CHR 0x22 # '':'' @ CHR 0x22 # ''stop'' @ CHR 0x22 # ''}'')\<rparr>"

definition msg_ping :: message where
  "msg_ping = \<lparr>data = Some (''{'' @ CHR 0x22 # ''event'' @ CHR 0x22 # '':'' @ CHR 0x22 # ''ping'' @ CHR 0x22 # ''}'')\<rparr>"

definition msg_malformed :: message where
  "msg_malformed = \<lparr>data = Some ''{oops''\<rparr>"

definition stop_scenario :: "event list" where
  "stop_scenario =
     [Construct None, WatchdogResumes, CheckIpcResumes, DoOn ''stop'' CallClose,
      BatchArrives [msg_stop, msg_ping]]"

section \<open>Properties\<close>

subsection \<open>The record of calls, timers and the frame of a quiet turn\<close>

lemma logged_simps [simp]:
  "trace (logged e w) = trace w @ [e]"
  "cfg (logged e w) = cfg w"
  "pending_timers (logged e w) = pending_timers w"
  "next_timer (logged e w) = next_timer w"
  "ticks (logged e w) = ticks w"
  "watchdog_suspended (logged e w) = watchdog_suspended w"
  "checkIpc_suspended (logged e w) = checkIpc_suspended w"
  "receiving (logged e w) = receiving w"
  "getEnv (logged e w) k = getEnv w k"
  "isDir (logged e w) d = isDir w d"
  by (simp_all add: logged_def getEnv_def isDir_def)

lemma clearTimeout_simps [simp]:
  "trace (clearTimeout t w) = trace w @ [ClearTimeout t]"
  "cfg (clearTimeout t w) = cfg w"
  "pending_timers (clearTimeout t w) =
     (case t of None \<Rightarrow> pending_timers w | Some h \<Rightarrow> removeAll h (pending_timers w))"
  "next_timer (clearTimeout t w) = next_timer w"
  "ticks (clearTimeout t w) = ticks w"
  "watchdog_suspended (clearTimeout t w) = watchdog_suspended w"
  "checkIpc_suspended (clearTimeout t w) = checkIpc_suspended w"
  "receiving (clearTimeout t w) = receiving w"
  by (simp_all add: clearTimeout_def split: option.splits)

lemma timers_set_append [simp]: "timers_set (xs @ ys) = timers_set xs @ timers_set ys"
  by (induction xs rule: timers_set.induct) simp_all

lemma dispatches_append [simp]: "dispatches (xs @ ys) = dispatches xs @ dispatches ys"
  by (induction xs rule: dispatches.induct) simp_all

lemma quiet_refl [simp]: "quiet s s"
  by (simp add: quiet_def)

lemma quiet_trans: "quiet s s' \<Longrightarrow> quiet s' s'' \<Longrightarrow> quiet s s''"
  unfolding quiet_def list_all_iff by (intro conjI; (auto)[1])

lemma quiet_close: "quiet s (snd (close s))"
  by (cases s) (auto simp add: quiet_def close_def Let_def list_all_iff split: option.splits)

lemma quiet_close_part_000: "quiet s (snd (close_part_000 s))"
  by (cases s) (auto simp add: quiet_def close_part_000_def Let_def list_all_iff split: option.splits)

lemma quiet_this_close: "quiet s (snd (this_close src s))"
  by (cases src) (simp_all add: this_close_def quiet_close quiet_close_part_000)

lemma quiet_run_handler: "quiet s (snd (run_handler src h d s))"
  by (cases h) (simp_all add: quiet_this_close, simp add: quiet_def)

lemma quiet_run_handlers: "quiet s (snd (run_handlers src hs d s))"
proof (induction hs arbitrary: s)
  case Nil
  then show ?case by simp
next
  case (Cons h hs)
  obtain r s1 where r: "run_handler src h d s = (r, s1)" by (cases "run_handler src h d s")
  have q1: "quiet s s1" using quiet_run_handler [of s src h d] r by simp
  show ?case
  proof (cases r)
    case None
    then show ?thesis using r q1 Cons.IH [of s1] by (simp add: quiet_trans)
  next
    case (Some e)
    then show ?thesis using r q1 by simp
  qed
qed

lemma quiet_logged: "timers_set [e] = [] \<Longrightarrow> quiet (this, w) (this, logged e w)"
  by (simp add: quiet_def)

lemma quiet_events_emit: "quiet s (snd (events_emit src event eventData s))"
proof -
  obtain this w where s: "s = (this, w)" by (cases s)
  have q0: "quiet s (this, logged (Events_emit event eventData) w)"
    unfolding s by (rule quiet_logged) simp
  show ?thesis
    unfolding events_emit_def s
    using q0 quiet_run_handlers [of "(this, logged (Events_emit event eventData) w)" src]
    by (auto simp add: s Let_def split: option.splits json.splits intro: quiet_trans)
qed

lemma quiet_process_message: "quiet s (process_message m s)"
  by (auto simp add: process_message_def process_message_try_def quiet_events_emit
      split: option.splits sum.splits)

lemma quiet_process_messages: "quiet s (process_messages ms s)"
proof (induction ms arbitrary: s)
  case Nil
  then show ?case by simp
next
  case (Cons m ms)
  show ?case using quiet_process_message [of s m] Cons.IH [of "process_message m s"]
    by (simp add: quiet_trans)
qed

lemma quiet_ipcHandler: "quiet s (snd (ipcHandler payload s))"
  by (simp add: ipcHandler_def Let_def quiet_events_emit)

lemma quiet_emit: "quiet s (snd (emit t e d s))"
  by (cases s) (simp add: emit_def Let_def quiet_def)

lemma quiet_emit_part_000: "quiet s (snd (emit_part_000 t e d s))"
  by (cases s) (simp add: emit_part_000_def Let_def quiet_def)

lemma quiet_this_emit: "quiet s (snd (this_emit src t e d s))"
  by (cases src) (simp_all add: this_emit_def quiet_emit quiet_emit_part_000)

lemma quiet_timers_ok:
  assumes q: "quiet s s'" and ok: "timers_ok s"
  shows "timers_ok s'"
proof -
  have sub: "set (pending_timers (snd s')) \<subseteq> set (pending_timers (snd s))"
    and tm: "timer (fst s') = timer (fst s)"
    using q by (simp_all add: quiet_def)
  have all: "\<forall>h\<in>set (pending_timers (snd s)). timer (fst s) = Some h \<and> h \<noteq> 0"
    using ok by (simp add: timers_ok_def list_all_iff)
  have a: "list_all (\<lambda>h. timer (fst s') = Some h \<and> h \<noteq> 0) (pending_timers (snd s'))"
  proof -
    have "timer (fst s') = Some h \<and> h \<noteq> 0" if "h \<in> set (pending_timers (snd s'))" for h
      using that sub tm all by (metis subsetD)
    then show ?thesis by (simp add: list_all_iff)
  qed
  have b: "pending_timers (snd s') = []" if ab: "aborted (fst s')"
  proof (cases "aborted (fst s)")
    case True
    then have "pending_timers (snd s) = []" using ok by (simp add: timers_ok_def)
    then show ?thesis using sub by simp
  next
    case False
    then have "\<forall>h\<in>set (pending_timers (snd s')). timer (fst s) \<noteq> Some h \<or> h = 0"
      using q ab by (simp add: quiet_def list_all_iff)
    then have "h \<notin> set (pending_timers (snd s'))" for h
      using sub all by (metis subsetD)
    then show ?thesis by (cases "pending_timers (snd s')") auto
  qed
  show ?thesis using a b by (simp add: timers_ok_def)
qed

lemma setTimeout_simps [simp]:
  "fst (setTimeout n w) = Suc (next_timer w)"
  "trace (snd (setTimeout n w)) = trace w @ [SetTimeout (Suc (next_timer w)) n]"
  "cfg (snd (setTimeout n w)) = cfg w"
  "pending_timers (snd (setTimeout n w)) = pending_timers w @ [Suc (next_timer w)]"
  "next_timer (snd (setTimeout n w)) = Suc (next_timer w)"
  "ticks (snd (setTimeout n w)) = ticks w"
  "watchdog_suspended (snd (setTimeout n w)) = watchdog_suspended w"
  "checkIpc_suspended (snd (setTimeout n w)) = checkIpc_suspended w"
  "receiving (snd (setTimeout n w)) = receiving w"
  by (simp_all add: setTimeout_def Let_def)

lemma finally_fields [simp]:
  "oid (fst (telemetryWatchdog_finally s)) = oid (fst s)"
  "intervalSeconds (fst (telemetryWatchdog_finally s)) = intervalSeconds (fst s)"
  "aborted (fst (telemetryWatchdog_finally s)) = aborted (fst s)"
  "cfg (snd (telemetryWatchdog_finally s)) = cfg (snd s)"
  "ticks (snd (telemetryWatchdog_finally s)) = ticks (snd s)"
  by (cases s; simp add: telemetryWatchdog_finally_def Let_def split_beta split: runtime.splits)+

lemma finally_timers_ok:
  assumes "timers_ok s"
  shows "timers_ok (telemetryWatchdog_finally s)"
proof -
  obtain this w where s: "s = (this, w)" by (cases s)
  have all: "\<forall>h\<in>set (pending_timers w). timer this = Some h \<and> h \<noteq> 0"
    using assms by (simp add: timers_ok_def list_all_iff s)
  have cleared: "pending_timers (clearTimeout (timer this) w) = []"
  proof (cases "timer this")
    case None
    then have "h \<notin> set (pending_timers w)" for h using all by auto
    then have "pending_timers w = []" by (cases "pending_timers w") auto
    then show ?thesis using None by simp
  next
    case (Some h)
    then have "h' \<notin> set (removeAll h (pending_timers w))" for h' using all by auto
    then have "removeAll h (pending_timers w) = []"
      by (cases "removeAll h (pending_timers w)") auto
    then show ?thesis using Some by simp
  qed
  show ?thesis
    unfolding s telemetryWatchdog_finally_def
    using cleared
    by (simp add: Let_def timers_ok_def split_beta split: runtime.splits)
qed

lemma quiet_sendMainTelemetry: "quiet s (snd (sendMainTelemetry src s))"
  by (cases s) (simp add: sendMainTelemetry_def Let_def quiet_this_emit split: option.splits)

lemma timers_ok_ticks [simp]: "timers_ok (this, w\<lparr>ticks := n\<rparr>) = timers_ok (this, w)"
  by (simp add: timers_ok_def)

lemma timers_ok_suspended [simp]:
  "timers_ok (this, w\<lparr>watchdog_suspended := n\<rparr>) = timers_ok (this, w)"
  "timers_ok (this, w\<lparr>checkIpc_suspended := b\<rparr>) = timers_ok (this, w)"
  "timers_ok (this, w\<lparr>receiving := b\<rparr>) = timers_ok (this, w)"
  "timers_ok (this, logged e w) = timers_ok (this, w)"
  "timers_ok (this\<lparr>ipc := x\<rparr>, w) = timers_ok (this, w)"
  "timers_ok (this\<lparr>ipcClient := y\<rparr>, w) = timers_ok (this, w)"
  "timers_ok (this\<lparr>events := z\<rparr>, w) = timers_ok (this, w)"
  by (simp_all add: timers_ok_def)

lemma watchdog_timers_ok:
  assumes "timers_ok s"
  shows "timers_ok (telemetryWatchdog src s)"
proof -
  obtain this w where s: "s = (this, w)" by (cases s)
  let ?s0 = "(this, w\<lparr>ticks := Suc (ticks w)\<rparr>)"
  obtain r s1 where r: "sendMainTelemetry src ?s0 = (r, s1)"
    by (cases "sendMainTelemetry src ?s0")
  have "quiet ?s0 s1" using quiet_sendMainTelemetry [of ?s0 src] r by simp
  moreover have "timers_ok ?s0" using assms s by simp
  ultimately have ok1: "timers_ok s1" by (rule quiet_timers_ok)
  show ?thesis
  proof (cases r)
    case None
    obtain this1 w1 where s1: "s1 = (this1, w1)" by (cases s1)
    show ?thesis using None r ok1 s1 by (simp add: telemetryWatchdog_def s)
  next
    case (Some e)
    show ?thesis using Some r finally_timers_ok [OF ok1] by (simp add: telemetryWatchdog_def s)
  qed
qed

lemma watchdog_fields [simp]:
  "oid (fst (telemetryWatchdog src s)) = oid (fst s)"
  "intervalSeconds (fst (telemetryWatchdog src s)) = intervalSeconds (fst s)"
proof -
  obtain this w where s: "s = (this, w)" by (cases s)
  let ?s0 = "(this, w\<lparr>ticks := Suc (ticks w)\<rparr>)"
  obtain r s1 where r: "sendMainTelemetry src ?s0 = (r, s1)"
    by (cases "sendMainTelemetry src ?s0")
  have q: "quiet ?s0 s1" using quiet_sendMainTelemetry [of ?s0 src] r by simp
  obtain this1 w1 where s1: "s1 = (this1, w1)" by (cases s1)
  show "oid (fst (telemetryWatchdog src s)) = oid (fst s)"
    using q r s1 by (cases r) (simp_all add: telemetryWatchdog_def s quiet_def)
  show "intervalSeconds (fst (telemetryWatchdog src s)) = intervalSeconds (fst s)"
    using q r s1 by (cases r) (simp_all add: telemetryWatchdog_def s quiet_def)
qed

lemma checkIpc_fields [simp]:
  "oid (fst (this_checkIpc src s)) = oid (fst s)"
  "intervalSeconds (fst (this_checkIpc src s)) = intervalSeconds (fst s)"
  by (cases s; cases src; simp add: this_checkIpc_def checkIpc_def checkIpc_part_000_def Let_def)+

lemma this_checkIpc_timers_ok: "timers_ok s \<Longrightarrow> timers_ok (this_checkIpc src s)"
  by (cases s; cases src) (simp_all add: this_checkIpc_def checkIpc_def checkIpc_part_000_def Let_def)

lemma checkIpc_resume_fields [simp]:
  "oid (fst (checkIpc_resume s)) = oid (fst s)"
  "intervalSeconds (fst (checkIpc_resume s)) = intervalSeconds (fst s)"
  by (cases s; simp add: checkIpc_resume_def Let_def)+

lemma checkIpc_resume_timers_ok: "timers_ok s \<Longrightarrow> timers_ok (checkIpc_resume s)"
  by (cases s) (simp add: checkIpc_resume_def Let_def)

subsection \<open>Every turn keeps the instance and the timer invariant\<close>

lemma quiet_fields:
  assumes "quiet s s'"
  shows "oid (fst s') = oid (fst s)" "intervalSeconds (fst s') = intervalSeconds (fst s)"
    "cfg (snd s') = cfg (snd s)" "ticks (snd s') = ticks (snd s)"
    "receiving (snd s') = receiving (snd s)"
    "timers_set (trace (snd s')) = timers_set (trace (snd s))"
    "aborted (fst s) \<Longrightarrow> aborted (fst s')"
    "pending_timers (snd s) = [] \<Longrightarrow> pending_timers (snd s') = []"
  using assms by (simp_all add: quiet_def)

lemma quiet_turn:
  "ev = DoClose \<or> (\<exists>e f. ev = DoOn e f) \<or> (\<exists>e f. ev = DoOff e f) \<or> (\<exists>t e d. ev = DoEmit t e d)
     \<or> (\<exists>x. ev = RelayArrives x) \<or> (\<exists>a. ev = Construct a)
   \<Longrightarrow> quiet s (turn src ev s)"
  by (cases s)
     (auto simp add: quiet_this_close quiet_this_emit quiet_ipcHandler events_on_def events_off_def
        quiet_def [of "(a, b)" "(c, b)" for a b c])

lemma checkIpc_batch_quiet: "\<not> aborted (fst s) \<Longrightarrow> quiet s (checkIpc_batch ms s)"
  by (cases s) (simp add: checkIpc_batch_def quiet_process_messages)

lemma turn_fields [simp]:
  "oid (fst (turn src ev s)) = oid (fst s)"
  "intervalSeconds (fst (turn src ev s)) = intervalSeconds (fst s)"
proof -
  have "oid (fst (turn src ev s)) = oid (fst s)
        \<and> intervalSeconds (fst (turn src ev s)) = intervalSeconds (fst s)"
  proof (cases ev)
    case (TimerFires h) then show ?thesis by simp
  next
    case WatchdogResumes then show ?thesis by simp
  next
    case CheckIpcResumes then show ?thesis by simp
  next
    case (BatchArrives ms)
    show ?thesis
    proof (cases "aborted (fst s)")
      case True
      then show ?thesis using BatchArrives by (cases s) (simp add: checkIpc_batch_def)
    next
      case False
      then show ?thesis using BatchArrives quiet_fields(1,2) [OF checkIpc_batch_quiet [OF False]]
        by simp
    qed
  qed (use quiet_fields(1,2) [OF quiet_turn [of ev s src]] in auto)
  then show "oid (fst (turn src ev s)) = oid (fst s)"
    and "intervalSeconds (fst (turn src ev s)) = intervalSeconds (fst s)" by simp_all
qed

lemma turn_timers_ok:
  assumes ok: "timers_ok s"
  shows "timers_ok (turn src ev s)"
proof (cases ev)
  case (TimerFires h)
  have "timers_ok (fst s, (snd s)\<lparr>pending_timers := removeAll h (pending_timers (snd s))\<rparr>)"
    using ok by (auto simp add: timers_ok_def list_all_iff)
  then show ?thesis using TimerFires ok by (simp add: watchdog_timers_ok)
next
  case WatchdogResumes
  have "timers_ok (fst s, (snd s)\<lparr>watchdog_suspended := watchdog_suspended (snd s) - 1\<rparr>)"
    using ok by (cases s) simp
  then show ?thesis using WatchdogResumes ok by (simp add: finally_timers_ok)
next
  case CheckIpcResumes
  then show ?thesis using ok by (simp add: checkIpc_resume_timers_ok)
next
  case (BatchArrives ms)
  show ?thesis
  proof (cases "aborted (fst s)")
    case True
    then show ?thesis using BatchArrives ok by (cases s) (simp add: checkIpc_batch_def)
  next
    case False
    then show ?thesis using BatchArrives ok quiet_timers_ok [OF checkIpc_batch_quiet [OF False]]
      by simp
  qed
qed (use ok quiet_timers_ok [OF quiet_turn [of ev s src]] in auto)

lemma new_existing:
  "instance p = Some existing \<Longrightarrow>
     new_PupTelemetry src arg p = (oid existing, p\<lparr>next_oid := Suc (next_oid p)\<rparr>)"
  by (simp add: new_PupTelemetry_def Let_def)

lemma new_first:
  assumes "instance p = None"
  shows "\<exists>this. instance (snd (new_PupTelemetry src arg p)) = Some this
           \<and> oid this = fst (new_PupTelemetry src arg p)
           \<and> intervalSeconds this =
               (let n0 = (case arg of None \<Rightarrow> Fin 5 | Some n \<Rightarrow> n);
                    n1 = (if js_not n0 \<or> js_lt n0 (Fin 1) then Fin 1 else n0)
                in if js_gt n1 (Fin 180) then Fin 180 else n1)"
  using assms by (simp add: new_PupTelemetry_def Let_def)

lemma new_instance:
  "\<exists>this. instance (snd (new_PupTelemetry src arg p)) = Some this
         \<and> oid this = fst (new_PupTelemetry src arg p)"
proof (cases "instance p")
  case None
  then show ?thesis using new_first [OF None, of src arg] by auto
next
  case (Some existing)
  then show ?thesis by (simp add: new_existing)
qed

lemma step_turn:
  assumes "\<And>a. ev \<noteq> Construct a" "instance p = Some this"
  shows "step src ev p = p\<lparr>instance := Some (fst (turn src ev (this, rt p))),
                              rt := snd (turn src ev (this, rt p))\<rparr>"
  using assms by (cases ev) (auto simp add: step_def Let_def simp del: turn.simps)

lemma step_construct:
  assumes "instance p = Some this"
  shows "step src (Construct a) p = p\<lparr>next_oid := Suc (next_oid p)\<rparr>"
  using assms by (simp add: step_def new_existing)

lemma step_instance:
  assumes "instance p = Some this"
  shows "\<exists>this'. instance (step src ev p) = Some this' \<and> oid this' = oid this
           \<and> intervalSeconds this' = intervalSeconds this"
proof (cases "\<exists>a. ev = Construct a")
  case True
  then show ?thesis using assms by (auto simp add: step_construct)
next
  case False
  then show ?thesis using step_turn [of ev p this src] assms by simp
qed

lemma run_instance:
  assumes "instance p = Some this"
  shows "\<exists>this'. instance (run src evs p) = Some this' \<and> oid this' = oid this
           \<and> intervalSeconds this' = intervalSeconds this"
  using assms
proof (induction evs arbitrary: p this)
  case Nil
  then show ?case by simp
next
  case (Cons ev evs)
  obtain this1 where t1: "instance (step src ev p) = Some this1" "oid this1 = oid this"
    "intervalSeconds this1 = intervalSeconds this"
    using step_instance [OF Cons.prems, of src ev] by auto
  show ?case using Cons.IH [OF t1(1)] t1(2,3) by simp
qed

lemma new_proc_ok: "proc_ok p \<Longrightarrow> proc_ok (snd (new_PupTelemetry src arg p))"
proof (cases "instance p")
  case None
  assume "proc_ok p"
  then have e: "pending_timers (rt p) = []" using None by (simp add: proc_ok_def)
  let ?this1 = "\<lparr>oid = next_oid p, events = [], intervalSeconds =
       (let n0 = (case arg of None \<Rightarrow> Fin 5 | Some n \<Rightarrow> n);
            n1 = (if js_not n0 \<or> js_lt n0 (Fin 1) then Fin 1 else n0)
        in if js_gt n1 (Fin 180) then Fin 180 else n1), timer = None,
                  aborted = False, ipc = None, ipcClient = None\<rparr>"
  have "timers_ok (?this1, rt p)" using e by (simp add: timers_ok_def)
  then have "timers_ok (this_checkIpc src (telemetryWatchdog src (?this1, rt p)))"
    by (intro this_checkIpc_timers_ok watchdog_timers_ok)
  then show ?thesis using None by (simp add: new_PupTelemetry_def Let_def proc_ok_def)
next
  case (Some existing)
  assume "proc_ok p"
  then show ?thesis using Some by (simp add: new_existing proc_ok_def)
qed

lemma step_proc_ok: "proc_ok p \<Longrightarrow> proc_ok (step src ev p)"
proof (cases "\<exists>a. ev = Construct a")
  case True
  assume "proc_ok p"
  then show ?thesis using True new_proc_ok [of p src] by (auto simp add: step_def)
next
  case False
  assume ok: "proc_ok p"
  show ?thesis
  proof (cases "instance p")
    case None
    then show ?thesis using ok False by (cases ev) (simp_all add: step_def)
  next
    case (Some this)
    then have "timers_ok (this, rt p)" using ok by (simp add: proc_ok_def)
    then have "timers_ok (turn src ev (this, rt p))" by (rule turn_timers_ok)
    then show ?thesis using Some False by (cases ev) (simp_all add: step_def proc_ok_def Let_def)
  qed
qed

lemma run_proc_ok: "proc_ok p \<Longrightarrow> proc_ok (run src evs p)"
  by (induction evs arbitrary: p) (simp_all add: step_proc_ok)

lemma boot_proc_ok: "proc_ok (boot c)"
  by (simp add: boot_def proc_ok_def)

subsection \<open>Outbound: \<open>emit\<close>\<close>

text \<open>
  C1. The claim: with identity \<open>w1\<close> and hostname, port and token all present,
  \<open>emit("main", "alert", {level:"high"})\<close> makes exactly one call into the secure channel,
  and that call carries target \<open>main\<close>, event \<open>alert\<close> and data \<open>{level:"high"}\<close>.
  In both source files the one call is \<open>client.sendTelemetry(eventData)\<close>: it is given the
  data and neither the target nor the event name. First the claim as stated, refuted at
  its own input for both files.
\<close>

theorem emit_main_alert_counterexample:
  "map call_event (added (rt (boot config_w1))
      (snd (snd (this_emit Telemetry_ts ''main'' ''alert'' (Some (JObj [(''level'', JStr ''high'')]))
         (instance_w1, rt (boot config_w1)))))) \<noteq> [Some ''alert'']
   \<and> map call_event (added (rt (boot config_w1))
      (snd (snd (this_emit Part_000 ''main'' ''alert'' (Some (JObj [(''level'', JStr ''high'')]))
         (instance_w1, rt (boot config_w1)))))) \<noteq> [Some ''alert'']
   \<and> map call_target (added (rt (boot config_w1))
      (snd (snd (this_emit Telemetry_ts ''main'' ''alert'' (Some (JObj [(''level'', JStr ''high'')]))
         (instance_w1, rt (boot config_w1)))))) \<noteq> [Some ''main'']"
  by (simp add: this_emit_def emit_def emit_part_000_def added_def boot_def config_w1_def
      env_w1_def getEnv_def)

text \<open>
  C1, amended. When hostname, port and token are present and not empty,
  \<open>emit("main", event, data)\<close> of either source file returns without error and makes
  exactly one call into the secure channel, \<open>sendTelemetry\<close> on a client for
  \<open>http://hostname:port\<close> and the token; the call carries the data and neither the
  target nor the event name.
\<close>

theorem emit_main_sends_telemetry:
  assumes "getEnv w ''PUP_API_HOSTNAME'' = Some host" "host \<noteq> []"
    and "getEnv w ''PUP_API_PORT'' = Some port" "port \<noteq> []"
    and "getEnv w ''PUP_API_TOKEN'' = Some token" "token \<noteq> []"
  shows "this_emit src ''main'' event eventData (this, w) =
           (None, (this, logged (SendTelemetry (''http://'' @ host @ '':'' @ port) token eventData) w))
         \<and> added w (snd (snd (this_emit src ''main'' event eventData (this, w))))
             = [SendTelemetry (''http://'' @ host @ '':'' @ port) token eventData]
         \<and> map call_target (added w (snd (snd (this_emit src ''main'' event eventData (this, w))))) = [None]
         \<and> map call_event (added w (snd (snd (this_emit src ''main'' event eventData (this, w))))) = [None]
         \<and> map call_data (added w (snd (snd (this_emit src ''main'' event eventData (this, w))))) = [eventData]"
  using assms by (cases src) (simp_all add: this_emit_def emit_def emit_part_000_def added_def)

theorem emit_main_sends_telemetry_witness:
  "getEnv (rt (boot config_w1)) ''PUP_API_HOSTNAME'' = Some ''localhost'' \<and> ''localhost'' \<noteq> []
   \<and> getEnv (rt (boot config_w1)) ''PUP_API_PORT'' = Some ''8080'' \<and> ''8080'' \<noteq> []
   \<and> getEnv (rt (boot config_w1)) ''PUP_API_TOKEN'' = Some ''secret'' \<and> ''secret'' \<noteq> []
   \<and> added (rt (boot config_w1))
        (snd (snd (this_emit Telemetry_ts ''main'' ''alert'' (Some (JObj [(''level'', JStr ''high'')]))
           (instance_w1, rt (boot config_w1)))))
      = [SendTelemetry ''http://localhost:8080'' ''secret'' (Some (JObj [(''level'', JStr ''high'')]))]"
proof -
  have h: "getEnv (rt (boot config_w1)) ''PUP_API_HOSTNAME'' = Some ''localhost''"
    and p: "getEnv (rt (boot config_w1)) ''PUP_API_PORT'' = Some ''8080''"
    and t: "getEnv (rt (boot config_w1)) ''PUP_API_TOKEN'' = Some ''secret''"
    by (simp_all add: getEnv_def boot_def config_w1_def env_w1_def)
  have n: "''localhost'' \<noteq> []" "''8080'' \<noteq> []" "''secret'' \<noteq> []" by simp_all
  show ?thesis
    using h p t emit_main_sends_telemetry [OF h n(1) p n(2) t n(3), of Telemetry_ts "''alert''"
        "Some (JObj [(''level'', JStr ''high'')])" instance_w1]
    by (simp add: added_def)
qed

text \<open>
  C2. For every call \<open>emit(target, event, data)\<close> of either source file: the calls it makes
  are appended to the record; when the target is \<open>"main"\<close> (the identity of the main
  process in the code) every one of them is a call into the secure channel and none is
  a mailbox call; for every other target none of them is \<open>sendTelemetry\<close>.
\<close>

theorem emit_routes:
  "trace (snd (snd (this_emit src targetProcessId event eventData (this, w))))
     = trace w @ added w (snd (snd (this_emit src targetProcessId event eventData (this, w))))
   \<and> (targetProcessId = ''main'' \<longrightarrow>
        list_all (\<lambda>c. is_secure_channel_call c \<and> \<not> is_mailbox_call c)
          (added w (snd (snd (this_emit src targetProcessId event eventData (this, w))))))
   \<and> (targetProcessId \<noteq> ''main'' \<longrightarrow>
        list_all (\<lambda>c. \<not> is_report_telemetry c)
          (added w (snd (snd (this_emit src targetProcessId event eventData (this, w))))))"
  by (cases src) (simp_all add: this_emit_def emit_def emit_part_000_def added_def Let_def)

theorem emit_routes_witness:
  "added (rt (boot config_w1))
     (snd (snd (this_emit Telemetry_ts ''main'' ''telemetry'' None (instance_w1, rt (boot config_w1)))))
     = [SendTelemetry ''http://localhost:8080'' ''secret'' None]
   \<and> list_all (\<lambda>c. is_secure_channel_call c \<and> \<not> is_mailbox_call c)
        (added (rt (boot config_w1))
           (snd (snd (this_emit Telemetry_ts ''main'' ''telemetry'' None (instance_w1, rt (boot config_w1))))))
   \<and> ''w2'' \<noteq> ''main''
   \<and> list_all (\<lambda>c. \<not> is_report_telemetry c)
        (added (rt (boot config_w1))
           (snd (snd (this_emit Telemetry_ts ''w2'' ''ping'' None (instance_w1, rt (boot config_w1))))))
   \<and> map is_mailbox_call
        (added (rt (boot config_w1))
           (snd (snd (this_emit Telemetry_ts ''w2'' ''ping'' None (instance_w1, rt (boot config_w1))))))
      = [True, True, True]
   \<and> added (rt (boot config_w1))
        (snd (snd (this_emit Part_000 ''w2'' ''ping'' None (instance_w1, rt (boot config_w1)))))
      = [SendIpc ''http://localhost:8080'' ''secret'' ''w2'' ''ping'' None]"
  using emit_routes [of Telemetry_ts "''main''" "''telemetry''" None instance_w1 "rt (boot config_w1)"]
        emit_routes [of Telemetry_ts "''w2''" "''ping''" None instance_w1 "rt (boot config_w1)"]
        emit_routes [of Part_000 "''w2''" "''ping''" None instance_w1 "rt (boot config_w1)"]
  by (simp add: this_emit_def emit_def emit_part_000_def added_def boot_def config_w1_def
      env_w1_def getEnv_def isDir_def Let_def)

text \<open>The identity of the main process is the string \<open>main\<close> in the code; the string
  \<open>supervisor\<close> names a peer like any other, and \<open>emit\<close> of src/telemetry.ts writes to
  its mailbox.\<close>

lemma emit_supervisor_names_a_peer:
  "map is_mailbox_call
     (added (rt (boot config_w1))
        (snd (snd (emit ''supervisor'' ''ping'' None (instance_w1, rt (boot config_w1))))))
     = [True, True, True]"
  by (simp add: emit_def added_def boot_def config_w1_def env_w1_def getEnv_def isDir_def Let_def)

text \<open>
  C8. When hostname, port or token is absent, \<open>emit("main", event, data)\<close> of either
  source file returns without error and leaves the process as it was: no call is made.
\<close>

theorem emit_main_without_endpoint:
  assumes "getEnv w ''PUP_API_HOSTNAME'' = None \<or> getEnv w ''PUP_API_PORT'' = None
           \<or> getEnv w ''PUP_API_TOKEN'' = None"
  shows "this_emit src ''main'' event eventData (this, w) = (None, (this, w))"
  using assms by (cases src) (auto simp add: this_emit_def emit_def emit_part_000_def)

theorem emit_main_without_endpoint_witness:
  "getEnv (rt (boot config_standalone)) ''PUP_API_HOSTNAME'' = None
   \<and> this_emit Telemetry_ts ''main'' ''telemetry'' (Some JNull) (instance_w1, rt (boot config_standalone))
       = (None, (instance_w1, rt (boot config_standalone)))
   \<and> trace (snd (snd (this_emit Part_000 ''main'' ''telemetry'' (Some JNull)
                         (instance_w1, rt (boot config_standalone))))) = []"
proof -
  have h: "getEnv (rt (boot config_standalone)) ''PUP_API_HOSTNAME'' = None"
    by (simp add: getEnv_def boot_def config_standalone_def)
  have tr: "trace (rt (boot config_standalone)) = []" by (simp add: boot_def)
  show ?thesis
    using h tr
      emit_main_without_endpoint [of "rt (boot config_standalone)" Telemetry_ts "''telemetry''"
        "Some JNull" instance_w1]
      emit_main_without_endpoint [of "rt (boot config_standalone)" Part_000 "''telemetry''"
        "Some JNull" instance_w1]
    by simp
qed

subsection \<open>The constructor\<close>

text \<open>
  C3. On first construction with an argument \<open>n\<close> of type \<open>number\<close>, the interval stored
  is 1 when \<open>n\<close> is \<open>NaN\<close>, zero or below 1, is 180 when \<open>n\<close> is above 180, and is \<open>n\<close>
  otherwise; it always lies in [1,180].
\<close>

theorem constructor_clamps_interval:
  assumes "instance p = None"
  shows "map_option intervalSeconds (instance (snd (new_PupTelemetry src (Some n) p)))
           = Some (case n of
                     NaN \<Rightarrow> Fin 1
                   | NegInf \<Rightarrow> Fin 1
                   | PosInf \<Rightarrow> Fin 180
                   | Fin q \<Rightarrow> if q = 0 \<or> q < 1 then Fin 1 else if 180 < q then Fin 180 else Fin q)
         \<and> (\<exists>q. map_option intervalSeconds (instance (snd (new_PupTelemetry src (Some n) p)))
                   = Some (Fin q) \<and> 1 \<le> q \<and> q \<le> 180)"
proof -
  obtain this where t: "instance (snd (new_PupTelemetry src (Some n) p)) = Some this"
    "intervalSeconds this =
               (let n0 = (case Some n of None \<Rightarrow> Fin 5 | Some n \<Rightarrow> n);
                    n1 = (if js_not n0 \<or> js_lt n0 (Fin 1) then Fin 1 else n0)
                in if js_gt n1 (Fin 180) then Fin 180 else n1)"
    using new_first [OF assms, of src "Some n"] by auto
  show ?thesis unfolding t(1) using t(2) by (cases n) (auto simp add: js_gt_def Let_def)
qed

theorem constructor_clamps_interval_witness:
  "instance (boot config_w1) = None
   \<and> map_option intervalSeconds
        (instance (snd (new_PupTelemetry Telemetry_ts (Some (Fin 500)) (boot config_w1))))
       = Some (Fin 180)
   \<and> map_option intervalSeconds
        (instance (snd (new_PupTelemetry Part_000 (Some NaN) (boot config_w1))))
       = Some (Fin 1)
   \<and> map_option intervalSeconds
        (instance (snd (new_PupTelemetry Part_000 (Some (Fin 0)) (boot config_w1))))
       = Some (Fin 1)
   \<and> map_option intervalSeconds
        (instance (snd (new_PupTelemetry Telemetry_ts (Some (Fin (3/2))) (boot config_w1))))
       = Some (Fin (3/2))"
proof -
  have h: "instance (boot config_w1) = None" by (simp add: boot_def)
  show ?thesis
    using h constructor_clamps_interval [OF h, of Telemetry_ts "Fin 500"]
      constructor_clamps_interval [OF h, of Part_000 NaN]
      constructor_clamps_interval [OF h, of Part_000 "Fin 0"]
      constructor_clamps_interval [OF h, of Telemetry_ts "Fin (3/2)"]
    by simp
qed

text \<open>
  C10. On first construction without an argument the interval stored is 5, the default
  of the parameter, and not the 15 of the field initialiser and of the doc comment.
\<close>

theorem constructor_default_interval:
  assumes "instance p = None"
  shows "map_option intervalSeconds (instance (snd (new_PupTelemetry src None p))) = Some (Fin 5)
         \<and> map_option intervalSeconds (instance (snd (new_PupTelemetry src None p))) \<noteq> Some (Fin 15)"
proof -
  obtain this where t: "instance (snd (new_PupTelemetry src None p)) = Some this"
    "intervalSeconds this =
               (let n0 = (case None of None \<Rightarrow> Fin 5 | Some n \<Rightarrow> n);
                    n1 = (if js_not n0 \<or> js_lt n0 (Fin 1) then Fin 1 else n0)
                in if js_gt n1 (Fin 180) then Fin 180 else n1)"
    using new_first [OF assms, of src None] by auto
  show ?thesis unfolding t(1) using t(2) by (simp add: js_gt_def Let_def)
qed

theorem constructor_default_interval_witness:
  "instance (boot config_w1) = None
   \<and> map_option intervalSeconds
        (instance (snd (new_PupTelemetry Telemetry_ts None (boot config_w1)))) = Some (Fin 5)
   \<and> map_option intervalSeconds
        (instance (snd (new_PupTelemetry Part_000 None (boot config_standalone)))) = Some (Fin 5)"
proof -
  have h: "instance (boot config_w1) = None" and h': "instance (boot config_standalone) = None"
    by (simp_all add: boot_def)
  show ?thesis
    using h constructor_default_interval [OF h, of Telemetry_ts]
      constructor_default_interval [OF h', of Part_000]
    by simp
qed

text \<open>
  C4. After a first call of the constructor and any turns of the process, a second call
  returns the object the first call returned, and leaves the instance, its stored
  interval and the rest of the process as they were, whatever its argument.
\<close>

theorem second_construction_returns_instance:
  "fst (new_PupTelemetry src b (run src evs (snd (new_PupTelemetry src a p))))
     = fst (new_PupTelemetry src a p)
   \<and> instance (snd (new_PupTelemetry src b (run src evs (snd (new_PupTelemetry src a p)))))
     = instance (run src evs (snd (new_PupTelemetry src a p)))
   \<and> rt (snd (new_PupTelemetry src b (run src evs (snd (new_PupTelemetry src a p)))))
     = rt (run src evs (snd (new_PupTelemetry src a p)))
   \<and> map_option intervalSeconds
        (instance (snd (new_PupTelemetry src b (run src evs (snd (new_PupTelemetry src a p))))))
     = map_option intervalSeconds (instance (snd (new_PupTelemetry src a p)))"
proof -
  obtain this where t: "instance (snd (new_PupTelemetry src a p)) = Some this"
    "oid this = fst (new_PupTelemetry src a p)"
    using new_instance [of src a p] by auto
  obtain this' where t': "instance (run src evs (snd (new_PupTelemetry src a p))) = Some this'"
    "oid this' = oid this" "intervalSeconds this' = intervalSeconds this"
    using run_instance [OF t(1), of src evs] by auto
  show ?thesis using t t' by (simp add: new_existing [OF t'(1)])
qed

theorem second_construction_witness:
  "fst (new_PupTelemetry Telemetry_ts (Some (Fin 60))
          (run Telemetry_ts [DoOn ''ping'' (Log 1)]
             (snd (new_PupTelemetry Telemetry_ts (Some (Fin 10)) (boot config_w1)))))
     = 0
   \<and> map_option intervalSeconds
        (instance (snd (new_PupTelemetry Telemetry_ts (Some (Fin 60))
          (run Telemetry_ts [DoOn ''ping'' (Log 1)]
             (snd (new_PupTelemetry Telemetry_ts (Some (Fin 10)) (boot config_w1)))))))
     = Some (Fin 10)"
proof -
  have h: "instance (boot config_w1) = None" by (simp add: boot_def)
  obtain this where t:
    "instance (snd (new_PupTelemetry Telemetry_ts (Some (Fin 10)) (boot config_w1))) = Some this"
    "intervalSeconds this = Fin 10"
    using new_first [OF h, of Telemetry_ts "Some (Fin 10)"] by (auto simp add: js_gt_def Let_def)
  have f: "fst (new_PupTelemetry Telemetry_ts (Some (Fin 10)) (boot config_w1)) = 0"
    by (simp add: new_PupTelemetry_def Let_def boot_def)
  have i: "map_option intervalSeconds
             (instance (snd (new_PupTelemetry Telemetry_ts (Some (Fin 10)) (boot config_w1))))
           = Some (Fin 10)"
    using t by simp
  note th = second_construction_returns_instance
              [of Telemetry_ts "Some (Fin 60)" "[DoOn ''ping'' (Log 1)]" "Some (Fin 10)"
                  "boot config_w1"]
  show ?thesis
    using th [THEN conjunct1] th [THEN conjunct2, THEN conjunct2, THEN conjunct2] f i
    by (simp only:)
qed

subsection \<open>After \<open>close\<close>\<close>

lemma this_close_aborted [simp]:
  "aborted (fst (snd (this_close src s)))" "fst (this_close src s) = None"
  by (cases s; cases src; simp add: this_close_def close_def close_part_000_def Let_def split_beta
        split: option.splits)+

lemma turn_closed:
  assumes a: "aborted (fst s)" and e: "pending_timers (snd s) = []"
  shows "aborted (fst (turn src ev s)) \<and> pending_timers (snd (turn src ev s)) = []
         \<and> ticks (snd (turn src ev s)) = ticks (snd s)
         \<and> timers_set (trace (snd (turn src ev s))) = timers_set (trace (snd s))"
proof (cases ev)
  case (TimerFires h)
  then show ?thesis using a e by simp
next
  case WatchdogResumes
  then show ?thesis using a e
    by (cases s) (simp add: telemetryWatchdog_finally_def Let_def split: option.splits)
next
  case CheckIpcResumes
  then show ?thesis using a e by (cases s) (simp add: checkIpc_resume_def Let_def)
next
  case (BatchArrives ms)
  then show ?thesis using a e by (cases s) (simp add: checkIpc_batch_def)
qed (use a e quiet_fields [OF quiet_turn [of ev s src]] in auto)

lemma step_closed:
  assumes "closed_down p"
  shows "closed_down (step src ev p) \<and> ticks (rt (step src ev p)) = ticks (rt p)
         \<and> timers_set (trace (rt (step src ev p))) = timers_set (trace (rt p))"
proof -
  obtain this where t: "instance p = Some this" "aborted this" "pending_timers (rt p) = []"
    using assms by (auto simp add: closed_down_def split: option.splits)
  show ?thesis
  proof (cases "\<exists>a. ev = Construct a")
    case True
    then show ?thesis using t by (auto simp add: step_construct closed_down_def)
  next
    case False
    then have st: "step src ev p = p\<lparr>instance := Some (fst (turn src ev (this, rt p))),
                              rt := snd (turn src ev (this, rt p))\<rparr>"
      using step_turn [of ev p this src] t(1) by simp
    show ?thesis unfolding st using turn_closed [of "(this, rt p)" src ev] t
      by (simp add: closed_down_def)
  qed
qed

lemma run_closed:
  assumes "closed_down p"
  shows "closed_down (run src evs p) \<and> ticks (rt (run src evs p)) = ticks (rt p)
         \<and> timers_set (trace (rt (run src evs p))) = timers_set (trace (rt p))"
  using assms
proof (induction evs arbitrary: p)
  case Nil
  then show ?case by simp
next
  case (Cons ev evs)
  show ?case using step_closed [OF Cons.prems, of src ev] Cons.IH [of "step src ev p"] by simp
qed

lemma close_closes:
  assumes ok: "proc_ok p" and i: "instance p = Some this"
  shows "closed_down (step src DoClose p)"
proof -
  have st: "step src DoClose p = p\<lparr>instance := Some (fst (turn src DoClose (this, rt p))),
                              rt := snd (turn src DoClose (this, rt p))\<rparr>"
    using step_turn [of DoClose p this src] i by simp
  have "timers_ok (this, rt p)" using ok i by (simp add: proc_ok_def)
  then have "timers_ok (turn src DoClose (this, rt p))" by (rule turn_timers_ok)
  moreover have "aborted (fst (turn src DoClose (this, rt p)))" by simp
  ultimately have "pending_timers (snd (turn src DoClose (this, rt p))) = []"
    by (simp add: timers_ok_def)
  then show ?thesis unfolding st by (simp add: closed_down_def)
qed

subsection \<open>What the inbound loop dispatches\<close>

lemma dispatches_this_close [simp]:
  "dispatches (trace (snd (snd (this_close src s)))) = dispatches (trace (snd s))"
  by (cases s; cases src)
     (simp_all add: this_close_def close_def close_part_000_def Let_def split_beta
        split: option.splits)

lemma dispatches_run_handler [simp]:
  "dispatches (trace (snd (snd (run_handler src h d s)))) = dispatches (trace (snd s))"
  by (cases h) simp_all

lemma dispatches_run_handlers [simp]:
  "dispatches (trace (snd (snd (run_handlers src hs d s)))) = dispatches (trace (snd s))"
proof (induction hs arbitrary: s)
  case Nil
  then show ?case by simp
next
  case (Cons h hs)
  obtain r s1 where r: "run_handler src h d s = (r, s1)" by (cases "run_handler src h d s")
  have d1: "dispatches (trace (snd s1)) = dispatches (trace (snd s))"
    using dispatches_run_handler [of src h d s] r by simp
  show ?case using r d1 Cons.IH [of s1] by (cases r) simp_all
qed

lemma dispatches_events_emit [simp]:
  "dispatches (trace (snd (snd (events_emit src event eventData s))))
     = dispatches (trace (snd s)) @ [(event, eventData)]"
  by (cases s) (simp add: events_emit_def Let_def split: option.splits json.splits)

lemma dispatches_process_message:
  "dispatches (trace (snd (process_message m s)))
     = dispatches (trace (snd s)) @ (case envelope_of (cfg (snd s)) m of None \<Rightarrow> [] | Some x \<Rightarrow> [x])"
proof (cases "truthy (data m)")
  case False
  then show ?thesis by (simp add: process_message_def process_message_try_def envelope_of_def)
next
  case True
  show ?thesis
  proof (cases "JSON_parse_of (cfg (snd s)) (interpolate (data m))")
    case None
    then show ?thesis using True
      by (simp add: process_message_def process_message_try_def envelope_of_def)
  next
    case (Some v)
    then show ?thesis using True
      by (cases v) (simp_all add: process_message_def process_message_try_def envelope_of_def)
  qed
qed

lemma cfg_process_message [simp]: "cfg (snd (process_message m s)) = cfg (snd s)"
  using quiet_fields(3) [OF quiet_process_message [of s m]] .

lemma dispatches_process_messages:
  "dispatches (trace (snd (process_messages ms s)))
     = dispatches (trace (snd s)) @ List.map_filter (envelope_of (cfg (snd s))) ms"
proof (induction ms arbitrary: s)
  case Nil
  then show ?case by (simp add: List.map_filter_simps)
next
  case (Cons m ms)
  show ?case
    using Cons.IH [of "process_message m s"] dispatches_process_message [of m s]
    by (simp add: List.map_filter_simps split: option.splits)
qed

lemma map_filter_append: "List.map_filter f (xs @ ys) = List.map_filter f xs @ List.map_filter f ys"
  by (simp add: List.map_filter_def)

lemma turn_closed_dispatches:
  assumes a: "aborted (fst s)" and e: "pending_timers (snd s) = []"
  shows "dispatches (trace (snd (turn Telemetry_ts ev s))) = dispatches (trace (snd s))"
proof (cases ev)
  case (DoEmit t ev d)
  then show ?thesis by (cases s) (simp add: this_emit_def emit_def Let_def)
next
  case (TimerFires h)
  then show ?thesis using e by simp
next
  case WatchdogResumes
  then show ?thesis using a
    by (cases s) (simp add: telemetryWatchdog_finally_def Let_def)
next
  case CheckIpcResumes
  then show ?thesis using a by (cases s) (simp add: checkIpc_resume_def Let_def)
next
  case (BatchArrives ms)
  then show ?thesis using a by (cases s) (simp add: checkIpc_batch_def)
qed simp_all

lemma run_closed_dispatches:
  assumes "closed_down p"
  shows "dispatches (trace (rt (run Telemetry_ts evs p))) = dispatches (trace (rt p))"
  using assms
proof (induction evs arbitrary: p)
  case Nil
  then show ?case by simp
next
  case (Cons ev evs)
  obtain this where t: "instance p = Some this" "aborted this" "pending_timers (rt p) = []"
    using Cons.prems by (auto simp add: closed_down_def split: option.splits)
  have c: "closed_down (step Telemetry_ts ev p)" using step_closed [OF Cons.prems] by simp
  have d: "dispatches (trace (rt (step Telemetry_ts ev p))) = dispatches (trace (rt p))"
  proof (cases "\<exists>a. ev = Construct a")
    case True
    then show ?thesis using t by (auto simp add: step_construct)
  next
    case False
    then have st: "step Telemetry_ts ev p =
        p\<lparr>instance := Some (fst (turn Telemetry_ts ev (this, rt p))),
          rt := snd (turn Telemetry_ts ev (this, rt p))\<rparr>"
      using step_turn [of ev p this Telemetry_ts] t(1) by simp
    show ?thesis unfolding st using turn_closed_dispatches [of "(this, rt p)" ev] t by simp
  qed
  show ?case using Cons.IH [OF c] d by simp
qed

lemma aborted_closed:
  assumes "proc_ok p" "instance p = Some this" "aborted this"
  shows "closed_down p"
  using assms by (simp add: proc_ok_def timers_ok_def closed_down_def)

subsection \<open>The built-ins at some texts and values\<close>

text \<open>Numbers with fraction and exponent, the scientific form from \<open>10^21\<close> on, an escape
  above \<open>00FF\<close>, a surrogate pair, and the order of integer-like property names.\<close>

lemma JSON_parse_numbers:
  "JSON_parse ''1.5'' = Some (JFrac 15 (- 1))"
  "JSON_parse ''1e2'' = Some (JNum 100)"
  "JSON_parse ''-2.50E-3'' = Some (JFrac (- 25) (- 4))"
  "JSON_parse ''01'' = None"
  "JSON_parse ''1.'' = None"
  by code_simp+

lemma JSON_stringify_numbers:
  "JSON_stringify (JNum 1000000000000000000000) = ''1e+21''"
  "JSON_stringify (JNum 100000000000000000000) = ''100000000000000000000''"
  "JSON_stringify (JFrac 215 (- 1)) = ''21.5''"
  "JSON_stringify (JFrac 1 (- 7)) = ''1e-7''"
  by code_simp+

lemma JSON_parse_escapes:
  "JSON_parse (CHR 0x22 # CHR 0x5C # ''u20ac'' @ [CHR 0x22]) = Some (JStr [CHR 0xE2, CHR 0x82, CHR 0xAC])"
  "JSON_parse (CHR 0x22 # CHR 0x5C # ''ud83d'' @ CHR 0x5C # ''ude00'' @ [CHR 0x22])
     = Some (JStr [CHR 0xF0, CHR 0x9F, CHR 0x98, CHR 0x80])"
  by code_simp+

lemma JSON_parse_property_order:
  "JSON_parse (''{'' @ CHR 0x22 # ''b'' @ CHR 0x22 # '':1,'' @ CHR 0x22 # ''10'' @ CHR 0x22 # '':2,''
                @ CHR 0x22 # ''2'' @ CHR 0x22 # '':3,'' @ CHR 0x22 # ''b'' @ CHR 0x22 # '':4}'')
     = Some (JObj [(''2'', JNum 3), (''10'', JNum 2), (''b'', JNum 4)])"
  by code_simp

lemma sent_texts_append [simp]: "sent_texts (xs @ ys) = sent_texts xs @ sent_texts ys"
  by (induction xs rule: sent_texts.induct) simp_all

subsection \<open>\<open>JSON_parse\<close> reads what \<open>JSON_stringify\<close> prints\<close>

text \<open>Digits and their value.\<close>

lemma of_char_hexdigit:
  "0 \<le> n \<Longrightarrow> n < 16 \<Longrightarrow> (of_char (hexdigit n) :: int) = (if n < 10 then 48 + n else 87 + n)"
  by (simp add: hexdigit_def)

lemma hexval_hexdigit: "0 \<le> n \<Longrightarrow> n < 16 \<Longrightarrow> hexval (hexdigit n) = Some n"
  by (simp add: hexval_def of_char_hexdigit Let_def)

lemma char_eq_iff_of_char: "(c = d) \<longleftrightarrow> ((of_char c :: int) = of_char d)"
  by (metis char_of_char)

lemma digit_hexdigit:
  assumes "0 \<le> n" "n < 10"
  shows "is_digit (hexdigit n)" "(of_char (hexdigit n) :: int) - 48 = n"
    "hexdigit n = CHR ''0'' \<longleftrightarrow> n = 0"
proof -
  have v: "(of_char (hexdigit n) :: int) = 48 + n" using assms by (simp add: of_char_hexdigit)
  show "is_digit (hexdigit n)" using v assms by (simp add: is_digit_def)
  show "(of_char (hexdigit n) :: int) - 48 = n" using v by simp
  show "hexdigit n = CHR ''0'' \<longleftrightarrow> n = 0"
    unfolding char_eq_iff_of_char [of "hexdigit n"] v by simp
qed

lemma digits_nonempty: "digits n \<noteq> []"
  by (subst digits.simps) simp

lemma digits_all: "0 \<le> n \<Longrightarrow> c \<in> set (digits n) \<Longrightarrow> is_digit c"
proof (induction n arbitrary: c rule: digits.induct)
  case (1 n)
  show ?case
  proof (cases "n < 10")
    case True
    then show ?thesis using "1.prems" digit_hexdigit(1) [of n]
      by (subst (asm) digits.simps) simp
  next
    case False
    have m: "0 \<le> n mod 10" "n mod 10 < 10" by simp_all
    have d: "0 \<le> n div 10" using "1.prems"(1) by simp
    show ?thesis using "1.prems"(2) "1.IH" [OF False d] False digit_hexdigit(1) [OF m]
      by (subst (asm) digits.simps) auto
  qed
qed

lemma foldl_digits:
  "foldl (\<lambda>acc c. acc * 10 + ((of_char c :: int) - 48)) a ds
     = a * 10 ^ length ds + foldl (\<lambda>acc c. acc * 10 + (of_char c - 48)) 0 ds"
proof (induction ds arbitrary: a)
  case Nil
  then show ?case by simp
next
  case (Cons d ds)
  show ?case
    using Cons.IH [of "a * 10 + (of_char d - 48)"] Cons.IH [of "of_char d - 48"]
    by (simp add: algebra_simps)
qed

lemma digits_value_append:
  "digits_value (a @ b) = digits_value a * 10 ^ length b + digits_value b"
  unfolding digits_value_def foldl_append by (rule foldl_digits)

lemma digits_value_simps [simp]:
  "digits_value [] = 0" "digits_value [c] = of_char c - 48"
  by (simp_all add: digits_value_def)

lemma digits_value_zeros [simp]: "digits_value (replicate z (CHR ''0'')) = 0"
  by (induction z) (simp_all add: digits_value_append [of "[c]" for c, simplified])

lemma digits_value_digits: "0 \<le> n \<Longrightarrow> digits_value (digits n) = n"
proof (induction n rule: digits.induct)
  case (1 n)
  show ?case
  proof (cases "n < 10")
    case True
    then show ?thesis using digit_hexdigit(2) [of n] "1.prems"
      by (subst digits.simps) simp
  next
    case False
    have m: "0 \<le> n mod 10" "n mod 10 < 10" by simp_all
    have d: "0 \<le> n div 10" using "1.prems" by simp
    show ?thesis using "1.IH" [OF False d] False digit_hexdigit(2) [OF m]
      by (subst digits.simps) (simp add: digits_value_append)
  qed
qed

lemma digits_hd: "0 < n \<Longrightarrow> hd (digits n) \<noteq> CHR ''0''"
proof (induction n rule: digits.induct)
  case (1 n)
  show ?case
  proof (cases "n < 10")
    case True
    then show ?thesis using digit_hexdigit(3) [of n] "1.prems"
      by (subst digits.simps) simp
  next
    case False
    have d: "0 < n div 10" using False by simp
    show ?thesis using "1.IH" [OF False d] False digits_nonempty [of "n div 10"]
      by (subst digits.simps) simp
  qed
qed

lemma digits_last: "0 < n \<Longrightarrow> \<not> 10 dvd n \<Longrightarrow> last (digits n) \<noteq> CHR ''0''"
proof -
  assume p: "0 < n" and nd: "\<not> 10 dvd n"
  have m: "0 \<le> n mod 10" "n mod 10 < 10" by simp_all
  have nz: "n mod 10 \<noteq> 0" using nd by (simp add: dvd_eq_mod_eq_0)
  show ?thesis
  proof (cases "n < 10")
    case True
    then show ?thesis using digit_hexdigit(3) [of n] p by (subst digits.simps) simp
  next
    case False
    then show ?thesis using digit_hexdigit(3) [OF m] nz by (subst digits.simps) simp
  qed
qed

lemma digits_value_nonneg: "\<forall>c\<in>set ds. is_digit c \<Longrightarrow> 0 \<le> digits_value ds"
proof (induction ds rule: rev_induct)
  case Nil
  then show ?case by simp
next
  case (snoc x xs)
  have "0 \<le> digits_value xs" using snoc by simp
  moreover have "0 \<le> (of_char x :: int) - 48" using snoc.prems by (simp add: is_digit_def)
  ultimately show ?case by (simp add: digits_value_append)
qed

lemma digits_value_pos:
  assumes "ds \<noteq> []" "\<forall>c\<in>set ds. is_digit c" "hd ds \<noteq> CHR ''0''"
  shows "0 < digits_value ds"
proof -
  obtain d r where ds: "ds = d # r" using assms(1) by (cases ds) auto
  have "is_digit d" "d \<noteq> CHR ''0''" using assms ds by auto
  then have "0 < (of_char d :: int) - 48"
    unfolding char_eq_iff_of_char [of d] by (simp add: is_digit_def)
  then have "0 < ((of_char d :: int) - 48) * 10 ^ length r" by simp
  moreover have "0 \<le> digits_value r" using assms(2) ds by (simp add: digits_value_nonneg)
  ultimately show ?thesis
    unfolding ds using digits_value_append [of "[d]" r] by simp
qed

lemma dropWhile_replicate_append:
  "dropWhile (\<lambda>c. c = a) (replicate z a @ r) = dropWhile (\<lambda>c. c = a) r"
  by (induction z) simp_all

lemma strip_zeros_id: "ds \<noteq> [] \<Longrightarrow> last ds \<noteq> CHR ''0'' \<Longrightarrow> strip_zeros ds = ds"
  by (cases ds rule: rev_cases) (simp_all add: strip_zeros_def)

lemma strip_zeros_append [simp]:
  "ds \<noteq> [] \<Longrightarrow> last ds \<noteq> CHR ''0'' \<Longrightarrow> strip_zeros (ds @ replicate z (CHR ''0'')) = ds"
  by (cases ds rule: rev_cases) (simp_all add: strip_zeros_def dropWhile_replicate_append)

lemma strip_zeros_decompose:
  "\<exists>z. ds = strip_zeros ds @ replicate z (CHR ''0'')"
proof -
  have "rev ds = takeWhile (\<lambda>c. c = CHR ''0'') (rev ds) @ dropWhile (\<lambda>c. c = CHR ''0'') (rev ds)"
    by simp
  then have "ds = rev (dropWhile (\<lambda>c. c = CHR ''0'') (rev ds))
                  @ rev (takeWhile (\<lambda>c. c = CHR ''0'') (rev ds))"
    by (metis rev_append rev_rev_ident)
  moreover have "rev (takeWhile (\<lambda>c. c = CHR ''0'') (rev ds))
                 = replicate (length (takeWhile (\<lambda>c. c = CHR ''0'') (rev ds))) (CHR ''0'')"
    by (rule replicate_eqI) (auto dest: set_takeWhileD)
  ultimately show ?thesis unfolding strip_zeros_def by metis
qed

lemma strip_zeros_last:
  "strip_zeros ds \<noteq> [] \<Longrightarrow> last (strip_zeros ds) \<noteq> CHR ''0''"
  unfolding strip_zeros_def
  using hd_dropWhile [of "\<lambda>c. c = CHR ''0''" "rev ds"] by (simp add: last_rev)

lemma strip_zeros_hd:
  "ds \<noteq> [] \<Longrightarrow> hd ds \<noteq> CHR ''0'' \<Longrightarrow> strip_zeros ds \<noteq> [] \<and> hd (strip_zeros ds) = hd ds"
proof -
  assume ne: "ds \<noteq> []" and h: "hd ds \<noteq> CHR ''0''"
  obtain z where z: "ds = strip_zeros ds @ replicate z (CHR ''0'')"
    using strip_zeros_decompose by blast
  have "strip_zeros ds \<noteq> []"
  proof
    assume "strip_zeros ds = []"
    then have "ds = replicate z (CHR ''0'')" using z by simp
    then show False using ne h by (cases z) auto
  qed
  then show ?thesis using z by (metis hd_append2)
qed


lemma is_digit_chars [simp]:
  "is_digit (CHR ''0'')" "\<not> is_digit (CHR ''.'')" "\<not> is_digit (CHR ''e'')"
  "\<not> is_digit (CHR ''+'')" "\<not> is_digit (CHR ''-'')"
  "\<not> is_digit (CHR '','')" "\<not> is_digit (CHR '']'')" "\<not> is_digit (CHR ''}'')"
  by (simp_all add: is_digit_def)

lemma takeWhile_stop:
  "r = [] \<or> \<not> P (hd r) \<Longrightarrow> takeWhile P r = []"
  "r = [] \<or> \<not> P (hd r) \<Longrightarrow> dropWhile P r = r"
  by (cases r; simp)+

lemma takeWhile_digits:
  assumes "\<forall>c\<in>set ds. is_digit c" "r = [] \<or> \<not> is_digit (hd r)"
  shows "takeWhile is_digit (ds @ r) = ds" "dropWhile is_digit (ds @ r) = r"
  using assms by (simp_all add: takeWhile_append2 dropWhile_append2 takeWhile_stop)

lemma lex_int_digits:
  assumes "ip \<noteq> []" "\<forall>c\<in>set ip. is_digit c" "hd ip = CHR ''0'' \<longrightarrow> tl ip = []"
    "r = [] \<or> \<not> is_digit (hd r)"
  shows "lex_int (ip @ r) = Some (ip, r)"
  unfolding lex_int_def Let_def takeWhile_digits [OF assms(2) assms(4)]
  using assms(1,3) by simp

lemma lex_frac_none:
  "r = [] \<or> hd r \<noteq> CHR ''.'' \<Longrightarrow> lex_frac r = Some ([], r)"
  by (cases r) (simp_all add: lex_frac_def)

lemma lex_frac_digits:
  assumes "fp \<noteq> []" "\<forall>c\<in>set fp. is_digit c" "r = [] \<or> \<not> is_digit (hd r)"
  shows "lex_frac (CHR ''.'' # fp @ r) = Some (fp, r)"
  unfolding lex_frac_def list.case takeWhile_digits [OF assms(2) assms(3)]
  using assms(1) by simp

lemma lex_exp_none:
  "r = [] \<or> (hd r \<noteq> CHR ''e'' \<and> hd r \<noteq> CHR ''E'') \<Longrightarrow> lex_exp r = Some (0, r)"
  by (cases r) (simp_all add: lex_exp_def)

lemma lex_digits1_digits:
  assumes "0 \<le> x" "r = [] \<or> \<not> is_digit (hd r)"
  shows "lex_digits1 (digits x @ r) = Some (x, r)"
proof -
  have a: "\<forall>c\<in>set (digits x). is_digit c" using digits_all [OF assms(1)] by blast
  show ?thesis
    unfolding lex_digits1_def takeWhile_digits [OF a assms(2)]
    using assms(1) by (simp add: digits_nonempty digits_value_digits)
qed

lemma lex_exp_exponent_part:
  assumes "r = [] \<or> \<not> is_digit (hd r)"
  shows "lex_exp (exponent_part x @ r) = Some (x, r)"
proof (cases "x < 0")
  case True
  then show ?thesis using lex_digits1_digits [of "\<bar>x\<bar>" r] assms
    by (simp add: lex_exp_def exponent_part_def)
next
  case False
  then show ?thesis using lex_digits1_digits [of "\<bar>x\<bar>" r] assms
    by (simp add: lex_exp_def exponent_part_def)
qed

lemma parse_number_parts:
  "lex_int s = Some (ip, s1) \<Longrightarrow> lex_frac s1 = Some (fp, s2) \<Longrightarrow> lex_exp s2 = Some (x, s3)
   \<Longrightarrow> parse_number neg s = Some (number_value neg ip fp x, s3)"
  by (simp add: parse_number_def)

lemma number_value_eq:
  assumes "strip_zeros (ip @ fp) = replicate j (CHR ''0'') @ ds" "ds \<noteq> []" "last ds \<noteq> CHR ''0''"
    "x - int (length fp) + int (length (ip @ fp)) - int (j + length ds) = y"
  shows "number_value neg ip fp x = number_value neg ds [] y"
  unfolding number_value_def using assms
  by (simp add: strip_zeros_id digits_value_append Let_def)

lemma exponent_part_hd:
  "exponent_part x @ r \<noteq> []" "hd (exponent_part x @ r) = CHR ''e''"
  by (simp_all add: exponent_part_def)

lemma parse_number_to_string:
  assumes ds: "ds \<noteq> []" "\<forall>c\<in>set ds. is_digit c" "hd ds \<noteq> CHR ''0''" "last ds \<noteq> CHR ''0''"
    and r: "follows r"
  shows "parse_number neg (number_to_string ds n @ r)
           = Some (number_value neg ds [] (n - int (length ds)), r)"
proof -
  let ?k = "int (length ds)"
  have r1: "r = [] \<or> \<not> is_digit (hd r)" and r2: "r = [] \<or> hd r \<noteq> CHR ''.''"
    and r3: "r = [] \<or> (hd r \<noteq> CHR ''e'' \<and> hd r \<noteq> CHR ''E'')"
    using r by (auto simp add: follows_def split: list.splits)
  have st: "strip_zeros ds = ds" using ds by (simp add: strip_zeros_id)
  consider (plain) "?k \<le> n \<and> n \<le> 21"
    | (point) "\<not> (?k \<le> n \<and> n \<le> 21)" "0 < n \<and> n \<le> 21"
    | (small) "\<not> (?k \<le> n \<and> n \<le> 21)" "\<not> (0 < n \<and> n \<le> 21)" "- 6 < n \<and> n \<le> 0"
    | (sci1) "\<not> (?k \<le> n \<and> n \<le> 21)" "\<not> (0 < n \<and> n \<le> 21)" "\<not> (- 6 < n \<and> n \<le> 0)" "?k = 1"
    | (sci) "\<not> (?k \<le> n \<and> n \<le> 21)" "\<not> (0 < n \<and> n \<le> 21)" "\<not> (- 6 < n \<and> n \<le> 0)" "?k \<noteq> 1"
    by blast
  then show ?thesis
  proof cases
    case plain
    let ?z = "replicate (nat (n - ?k)) (CHR ''0'')"
    have t: "number_to_string ds n @ r = (ds @ ?z) @ r"
      by (simp only: number_to_string_def Let_def if_P [OF plain])
    have a: "lex_int ((ds @ ?z) @ r) = Some (ds @ ?z, r)"
      by (rule lex_int_digits) (use ds r1 in auto)
    have v: "number_value neg (ds @ ?z) [] 0 = number_value neg ds [] (n - ?k)"
      by (rule number_value_eq [where j = 0]) (use ds plain in simp_all)
    show ?thesis
      unfolding t parse_number_parts [OF a lex_frac_none [OF r2] lex_exp_none [OF r3]] v ..
  next
    case point
    have nk: "nat n < length ds" "0 < nat n" using point by auto
    have "number_to_string ds n = take (nat n) ds @ ''.'' @ drop (nat n) ds"
      by (simp only: number_to_string_def Let_def if_not_P [OF point(1)] if_P [OF point(2)])
    then have t: "number_to_string ds n @ r = take (nat n) ds @ (CHR ''.'' # drop (nat n) ds @ r)"
      by simp
    have h: "hd (take (nat n) ds) = hd ds" using nk ds(1) by (cases ds) (auto simp add: take_Suc_conv_app_nth hd_take)
    have a: "lex_int (take (nat n) ds @ (CHR ''.'' # drop (nat n) ds @ r))
               = Some (take (nat n) ds, CHR ''.'' # drop (nat n) ds @ r)"
      by (rule lex_int_digits) (use ds nk h in \<open>auto dest: in_set_takeD\<close>)
    have b: "lex_frac (CHR ''.'' # drop (nat n) ds @ r) = Some (drop (nat n) ds, r)"
      by (rule lex_frac_digits) (use ds nk r1 in \<open>auto dest: in_set_dropD\<close>)
    have v: "number_value neg (take (nat n) ds) (drop (nat n) ds) 0
               = number_value neg ds [] (n - ?k)"
      by (rule number_value_eq [where j = 0]) (use ds nk st in simp_all)
    show ?thesis
      unfolding t parse_number_parts [OF a b lex_exp_none [OF r3]] v ..
  next
    case small
    let ?z = "replicate (nat (- n)) (CHR ''0'')"
    have "number_to_string ds n = ''0.'' @ ?z @ ds"
      by (simp only: number_to_string_def Let_def if_not_P [OF small(1)] if_not_P [OF small(2)]
            if_P [OF small(3)])
    then have t: "number_to_string ds n @ r = ''0'' @ (CHR ''.'' # (?z @ ds) @ r)"
      by simp
    have a: "lex_int (''0'' @ (CHR ''.'' # (?z @ ds) @ r)) = Some (''0'', CHR ''.'' # (?z @ ds) @ r)"
      by (rule lex_int_digits) simp_all
    have b: "lex_frac (CHR ''.'' # (?z @ ds) @ r) = Some (?z @ ds, r)"
      by (rule lex_frac_digits) (use ds r1 in auto)
    have s: "strip_zeros (''0'' @ ?z @ ds) = replicate (Suc (nat (- n))) (CHR ''0'') @ ds"
      using strip_zeros_id [of "replicate (Suc (nat (- n))) (CHR ''0'') @ ds"] ds by simp
    have v: "number_value neg ''0'' (?z @ ds) 0 = number_value neg ds [] (n - ?k)"
      by (rule number_value_eq [where j = "Suc (nat (- n))"]) (use ds small s in simp_all)
    show ?thesis
      unfolding t parse_number_parts [OF a b lex_exp_none [OF r3]] v ..
  next
    case sci1
    have "number_to_string ds n = ds @ exponent_part (n - 1)"
      by (simp only: number_to_string_def Let_def if_not_P [OF sci1(1)] if_not_P [OF sci1(2)]
            if_not_P [OF sci1(3)] if_P [OF sci1(4)])
    then have t: "number_to_string ds n @ r = ds @ (exponent_part (n - 1) @ r)"
      by simp
    have a: "lex_int (ds @ (exponent_part (n - 1) @ r)) = Some (ds, exponent_part (n - 1) @ r)"
      by (rule lex_int_digits) (use ds in \<open>auto simp add: exponent_part_def\<close>)
    have b: "lex_frac (exponent_part (n - 1) @ r) = Some ([], exponent_part (n - 1) @ r)"
      by (rule lex_frac_none) (simp add: exponent_part_def)
    have v: "number_value neg ds [] (n - 1) = number_value neg ds [] (n - ?k)"
      using sci1 by simp
    show ?thesis
      unfolding t parse_number_parts [OF a b lex_exp_exponent_part [OF r1]] v ..
  next
    case sci
    have k: "1 < length ds" using sci ds(1) by (cases ds) auto
    have "number_to_string ds n = take 1 ds @ ''.'' @ drop 1 ds @ exponent_part (n - 1)"
      by (simp only: number_to_string_def Let_def if_not_P [OF sci(1)] if_not_P [OF sci(2)]
            if_not_P [OF sci(3)] if_not_P [OF sci(4)])
    then have t: "number_to_string ds n @ r
               = take 1 ds @ (CHR ''.'' # drop 1 ds @ (exponent_part (n - 1) @ r))"
      by simp
    have h: "hd (take 1 ds) = hd ds" using ds(1) by (cases ds) auto
    have a: "lex_int (take 1 ds @ (CHR ''.'' # drop 1 ds @ (exponent_part (n - 1) @ r)))
               = Some (take 1 ds, CHR ''.'' # drop 1 ds @ (exponent_part (n - 1) @ r))"
      by (rule lex_int_digits) (use ds h in \<open>auto dest: in_set_takeD\<close>)
    have b: "lex_frac (CHR ''.'' # drop 1 ds @ (exponent_part (n - 1) @ r))
               = Some (drop 1 ds, exponent_part (n - 1) @ r)"
      by (rule lex_frac_digits) (use ds k in \<open>auto dest: in_set_dropD simp add: exponent_part_def\<close>)
    have v: "number_value neg (take 1 ds) (drop 1 ds) (n - 1) = number_value neg ds [] (n - ?k)"
      by (rule number_value_eq [where j = 0]) (use ds k st in simp_all)
    show ?thesis
      unfolding t parse_number_parts [OF a b lex_exp_exponent_part [OF r1]] v ..
  qed
qed

text \<open>A printed number is read as the number.\<close>

lemma number_to_string_first:
  assumes "ds \<noteq> []" "\<forall>c\<in>set ds. is_digit c"
  shows "\<exists>c cs. number_to_string ds n = c # cs \<and> is_digit c"
proof -
  obtain d r where ds: "ds = d # r" using assms(1) by (cases ds) auto
  have d: "is_digit d" using assms(2) ds by simp
  have t: "0 < n \<Longrightarrow> take (nat n) (d # r) = d # take (nat n - 1) r"
    by (cases "nat n") auto
  show ?thesis
    unfolding number_to_string_def Let_def ds using d t by (auto simp add: exponent_part_def)
qed

lemma digit_not_special:
  "is_digit c \<Longrightarrow> \<not> is_ws c \<and> c \<noteq> CHR ''n'' \<and> c \<noteq> CHR ''t'' \<and> c \<noteq> CHR ''f''
     \<and> c \<noteq> CHR 0x22 \<and> c \<noteq> CHR ''-'' \<and> c \<noteq> CHR '']'' \<and> c \<noteq> CHR ''}''"
  by (auto simp add: is_digit_def is_ws_def)

lemma skip_ws_Cons: "\<not> is_ws c \<Longrightarrow> skip_ws (c # cs) = c # cs"
  by (simp add: skip_ws_def)

lemma pv_digit:
  "is_digit c \<Longrightarrow> parse_value (Suc n) (c # cs) = parse_number False (c # cs)"
  using digit_not_special [of c] by (simp add: skip_ws_Cons)

lemma pv_minus: "parse_value (Suc n) (CHR ''-'' # cs) = parse_number True cs"
  by (simp add: skip_ws_def is_ws_def)

lemma pv_signed:
  assumes "ds \<noteq> []" "\<forall>c\<in>set ds. is_digit c" "hd ds \<noteq> CHR ''0''" "last ds \<noteq> CHR ''0''"
    and "follows r"
  shows "parse_value (Suc n) (((if neg then ''-'' else []) @ number_to_string ds p) @ r)
           = Some (number_value neg ds [] (p - int (length ds)), r)"
proof (cases neg)
  case True
  then show ?thesis using parse_number_to_string [OF assms, of True p]
    by (simp add: pv_minus del: parse_value.simps)
next
  case False
  obtain c cs where f: "number_to_string ds p = c # cs" "is_digit c"
    using number_to_string_first [OF assms(1,2)] by blast
  have "parse_value (Suc n) ((c # cs) @ r) = parse_number False ((c # cs) @ r)"
    using pv_digit [OF f(2)] by simp
  then show ?thesis using parse_number_to_string [OF assms, of False p] False f(1)
    by (simp del: parse_value.simps)
qed

lemma number_value_plain:
  assumes "ds \<noteq> []" "\<forall>c\<in>set ds. is_digit c" "hd ds \<noteq> CHR ''0''" "last ds \<noteq> CHR ''0''"
  shows "number_value neg ds [] e =
           (if 0 \<le> e then JNum ((if neg then - 1 else 1) * digits_value ds * 10 ^ nat e)
            else JFrac ((if neg then - 1 else 1) * digits_value ds) e)"
  using digits_value_pos [OF assms(1,2,3)] assms(1,4)
  by (simp add: number_value_def strip_zeros_id Let_def)

lemma pv_num:
  assumes "follows r"
  shows "parse_value (Suc n) (print_int i @ r) = Some (JNum i, r)"
proof (cases "i = 0")
  case True
  have r1: "r = [] \<or> \<not> is_digit (hd r)" and r2: "r = [] \<or> hd r \<noteq> CHR ''.''"
    and r3: "r = [] \<or> (hd r \<noteq> CHR ''e'' \<and> hd r \<noteq> CHR ''E'')"
    using assms by (auto simp add: follows_def split: list.splits)
  have a: "lex_int (''0'' @ r) = Some (''0'', r)"
    by (rule lex_int_digits) (use r1 in simp_all)
  have v: "number_value False ''0'' [] 0 = JNum 0"
    by (simp add: number_value_def strip_zeros_def)
  have "parse_number False (''0'' @ r) = Some (JNum 0, r)"
    unfolding parse_number_parts [OF a lex_frac_none [OF r2] lex_exp_none [OF r3]] v ..
  then show ?thesis using True pv_digit [of "CHR ''0''" n r]
    by (simp add: print_int_def del: parse_value.simps)
next
  case False
  let ?all = "digits \<bar>i\<bar>"
  let ?ds = "strip_zeros ?all"
  have p: "0 < \<bar>i\<bar>" using False by simp
  have all: "?all \<noteq> []" "\<forall>c\<in>set ?all. is_digit c" "hd ?all \<noteq> CHR ''0''"
    using digits_nonempty digits_all [of "\<bar>i\<bar>"] digits_hd [OF p] by auto
  obtain z where z: "?all = ?ds @ replicate z (CHR ''0'')"
    using strip_zeros_decompose by blast
  have ne: "?ds \<noteq> []" and hd: "hd ?ds \<noteq> CHR ''0''"
    using strip_zeros_hd [OF all(1) all(3)] all(3) by simp_all
  have dg: "\<forall>c\<in>set ?ds. is_digit c" using all(2) z by (metis Un_iff set_append)
  have la: "last ?ds \<noteq> CHR ''0''" using strip_zeros_last [OF ne] .
  have len: "int (length ?all) - int (length ?ds) = int z"
    using arg_cong [OF z, of length] by simp
  have val: "digits_value ?ds * 10 ^ z = \<bar>i\<bar>"
    using arg_cong [OF z, of digits_value] digits_value_digits [of "\<bar>i\<bar>"]
    by (simp add: digits_value_append)
  have "number_value (i < 0) ?ds [] (int z) = JNum i"
    unfolding number_value_plain [OF ne dg hd la] using val by (cases "i < 0") simp_all
  then have "parse_value (Suc n) (((if i < 0 then ''-'' else []) @
                number_to_string ?ds (int (length ?all))) @ r) = Some (JNum i, r)"
    unfolding pv_signed [OF ne dg hd la assms] len by simp
  then show ?thesis using False by (simp add: print_int_def del: parse_value.simps)
qed

lemma pv_frac:
  assumes "follows r" "e < 0" "\<not> 10 dvd s"
  shows "parse_value (Suc n) (print_frac s e @ r) = Some (JFrac s e, r)"
proof -
  let ?ds = "digits \<bar>s\<bar>"
  have p: "0 < \<bar>s\<bar>" using assms(3) by (cases "s = 0") simp_all
  have nd: "\<not> 10 dvd \<bar>s\<bar>" using assms(3) by simp
  have ds: "?ds \<noteq> []" "\<forall>c\<in>set ?ds. is_digit c" "hd ?ds \<noteq> CHR ''0''" "last ?ds \<noteq> CHR ''0''"
    using digits_nonempty digits_all [of "\<bar>s\<bar>"] digits_hd [OF p] digits_last [OF p nd] by auto
  have "number_value (s < 0) ?ds [] e = JFrac s e"
    unfolding number_value_plain [OF ds] using assms(2) digits_value_digits [of "\<bar>s\<bar>"]
    by (cases "s < 0") simp_all
  then have "parse_value (Suc n) (((if s < 0 then ''-'' else []) @
                number_to_string ?ds (int (length ?ds) + e)) @ r) = Some (JFrac s e, r)"
    unfolding pv_signed [OF ds assms(1)] by simp
  then show ?thesis by (simp add: print_frac_def del: parse_value.simps)
qed

text \<open>A printed string is read as the string.\<close>

lemma of_char_nonneg [simp]: "0 \<le> (of_char c :: int)"
  by (metis of_nat_of_char of_nat_0_le_iff)

lemma div64:
  fixes q r :: int
  shows "0 \<le> r \<Longrightarrow> r < 64 \<Longrightarrow> (q * 64 + r) div 64 = q"
    and "0 \<le> r \<Longrightarrow> r < 64 \<Longrightarrow> (q * 64 + r) mod 64 = r"
  by simp_all

lemma hex4_value:
  fixes u :: int
  shows "((u div 4096 * 16 + u div 256 mod 16) * 16 + u div 16 mod 16) * 16 + u mod 16 = u"
proof -
  have a: "u div 256 = u div 16 div 16" and b: "u div 4096 = u div 16 div 16 div 16"
    by (simp_all add: div_mult2_eq [symmetric])
  show ?thesis unfolding a b by (simp add: algebra_simps) 
qed

lemma unicode_escape_hex4:
  assumes "0 \<le> u" "u < 65536"
  shows "unicode_escape (hexdigit (u div 4096)) (hexdigit (u div 256 mod 16))
           (hexdigit (u div 16 mod 16)) (hexdigit (u mod 16)) = Some (utf8 u)"
proof -
  have a: "0 \<le> u div 4096" "u div 4096 < 16" using assms by auto
  have b: "0 \<le> u div 256 mod 16" "u div 256 mod 16 < 16" by simp_all
  have c: "0 \<le> u div 16 mod 16" "u div 16 mod 16 < 16" by simp_all
  have d: "0 \<le> u mod 16" "u mod 16 < 16" by simp_all
  show ?thesis
    by (simp only: unicode_escape_def hexval_hexdigit [OF a] hexval_hexdigit [OF b]
          hexval_hexdigit [OF c] hexval_hexdigit [OF d] prod.case option.case hex4_value)
qed

lemma parse_chars_unicode:
  assumes "0 \<le> u" "u < 65536"
  shows "parse_chars (CHR 0x5C # CHR ''u'' # hex4 u @ rest)
           = map_option (\<lambda>(s, r). (utf8 u @ s, r)) (parse_chars rest)"
  by (simp add: hex4_def unicode_escape_hex4 [OF assms])

lemma utf8_ascii: "(of_char c :: int) < 128 \<Longrightarrow> utf8 (of_char c) = [c]"
  by (simp add: utf8_def)

lemma escape_char_cases:
  "(escape_char c = [c] \<and> c \<noteq> CHR 0x22 \<and> c \<noteq> CHR 0x5C \<and> \<not> (of_char c :: int) < 32)
   \<or> (escape_char c = CHR 0x5C # CHR ''u'' # hex4 (of_char c) \<and> (of_char c :: int) < 32)
   \<or> (\<exists>x. escape_char c = [CHR 0x5C, x] \<and> x \<noteq> CHR ''u'' \<and> unescape x = Some c)"
  by (simp add: escape_char_def unescape_def)

lemma parse_chars_escape:
  "parse_chars (escape_char c @ rest) = map_option (\<lambda>(s, r). (c # s, r)) (parse_chars rest)"
proof -
  consider (plain) "escape_char c = [c]" "c \<noteq> CHR 0x22" "c \<noteq> CHR 0x5C" "\<not> (of_char c :: int) < 32"
    | (control) "escape_char c = CHR 0x5C # CHR ''u'' # hex4 (of_char c)" "(of_char c :: int) < 32"
    | (named) x where "escape_char c = [CHR 0x5C, x]" "x \<noteq> CHR ''u''" "unescape x = Some c"
    using escape_char_cases [of c] by blast
  then show ?thesis
  proof cases
    case plain
    then show ?thesis by simp
  next
    case control
    have u: "utf8 (of_char c) = [c]" using control(2) by (simp add: utf8_ascii)
    have "parse_chars (CHR 0x5C # CHR ''u'' # hex4 (of_char c) @ rest)
             = map_option (\<lambda>(s, r). (utf8 (of_char c) @ s, r)) (parse_chars rest)"
      by (rule parse_chars_unicode) (use control(2) in simp_all)
    then show ?thesis unfolding control(1) u by (simp del: parse_chars.simps)
  next
    case named
    then show ?thesis by simp
  qed
qed

lemma surrogate_bytes:
  fixes b c :: char
  assumes "160 \<le> (of_char b :: int)" "is_continuation b" "is_continuation c"
  shows "utf8 (53248 + (of_char b - 128) * 64 + (of_char c - 128)) = [CHR 0xED, b, c]"
    and "0 \<le> 53248 + ((of_char b :: int) - 128) * 64 + (of_char c - 128)"
    and "53248 + ((of_char b :: int) - 128) * 64 + (of_char c - 128) < 65536"
proof -
  let ?B = "of_char b :: int" and ?C = "of_char c :: int"
  let ?u = "53248 + (?B - 128) * 64 + (?C - 128)"
  have bb: "160 \<le> ?B" "?B < 192" and cc: "128 \<le> ?C" "?C < 192"
    using assms by (simp_all add: is_continuation_def)
  have lo: "55296 \<le> ?u" and hi: "?u < 57344" using bb cc by simp_all
  show "0 \<le> ?u" "?u < 65536" using lo hi by simp_all
  have d1: "?u div 4096 = 13" using lo hi by simp
  have m: "?u = (704 + ?B) * 64 + (?C - 128)" by simp
  have d2: "?u div 64 = 704 + ?B" unfolding m by (rule div64) (use cc in simp_all)
  have d3: "?u mod 64 = ?C - 128" unfolding m by (rule div64) (use cc in simp_all)
  have m2: "704 + ?B = 13 * 64 + (?B - 128)" by simp
  have "(704 + ?B) mod 64 = ?B - 128" unfolding m2 by (rule div64) (use bb in simp_all)
  then have d4: "?u div 64 mod 64 = ?B - 128" unfolding d2 .
  have e: "char_of (237 :: int) = CHR 0xED"
    using char_of_char [where ?'a = int, of "CHR 0xED"] by simp
  show "utf8 ?u = [CHR 0xED, b, c]"
    using lo hi unfolding utf8_def d1 d3 d4 by (simp add: e)
qed

lemma parse_chars_surrogate:
  assumes "160 \<le> (of_char b :: int)" "is_continuation b" "is_continuation c"
  shows "parse_chars (CHR 0x5C # CHR ''u'' #
            hex4 (53248 + (of_char b - 128) * 64 + (of_char c - 128)) @ rest)
           = map_option (\<lambda>(s, r). (CHR 0xED # b # c # s, r)) (parse_chars rest)"
  unfolding parse_chars_unicode [OF surrogate_bytes(2,3) [OF assms]] surrogate_bytes(1) [OF assms]
  by simp

lemma parse_chars_escaped:
  "parse_chars (escape_string s @ CHR 0x22 # r) = Some (s, r)"
proof (induction s rule: escape_string.induct)
  case (1 a b c cs)
  show ?case
  proof (cases "a = CHR 0xED \<and> 160 \<le> (of_char b :: int) \<and> is_continuation b \<and> is_continuation c")
    case True
    then have s: "160 \<le> (of_char b :: int)" "is_continuation b" "is_continuation c" by simp_all
    have e: "escape_string (a # b # c # cs) = [CHR 0x5C, CHR ''u''] @
               hex4 (53248 + (of_char b - 128) * 64 + (of_char c - 128)) @ escape_string cs"
      by (simp only: escape_string.simps if_P [OF True])
    have "parse_chars (CHR 0x5C # CHR ''u'' #
            hex4 (53248 + (of_char b - 128) * 64 + (of_char c - 128)) @ escape_string cs @ CHR 0x22 # r)
          = Some (a # b # c # cs, r)"
      unfolding parse_chars_surrogate [OF s] using "1.IH"(1) True by simp
    then show ?thesis unfolding e by (simp del: parse_chars.simps)
  next
    case False
    have "parse_chars (escape_char a @ escape_string (b # c # cs) @ CHR 0x22 # r)
            = Some (a # b # c # cs, r)"
      unfolding parse_chars_escape using "1.IH"(2) False by (simp del: escape_string.simps)
    moreover have "escape_string (a # b # c # cs) = escape_char a @ escape_string (b # c # cs)"
      by (simp only: escape_string.simps if_not_P [OF False])
    ultimately show ?thesis by (simp del: parse_chars.simps escape_string.simps)
  qed
qed (simp_all add: parse_chars_escape)

lemma parse_string_quote:
  assumes "join_surrogates s = s" and "quote s @ r = CHR 0x22 # t"
  shows "parse_string t = Some (s, r)"
  using parse_chars_escaped [of s r] assms by (simp add: quote_def parse_string_def)

lemma pv_null: "parse_value (Suc n) (''null'' @ r) = Some (JNull, r)"
  by (simp add: skip_ws_def is_ws_def literal_def)

lemma pv_true: "parse_value (Suc n) (''true'' @ r) = Some (JBool True, r)"
  by (simp add: skip_ws_def is_ws_def literal_def)

lemma pv_false: "parse_value (Suc n) (''false'' @ r) = Some (JBool False, r)"
  by (simp add: skip_ws_def is_ws_def literal_def)

lemma pv_str:
  assumes "join_surrogates s = s"
  shows "parse_value (Suc n) (quote s @ r) = Some (JStr s, r)"
proof -
  obtain t where t: "quote s @ r = CHR 0x22 # t" by (simp add: quote_def)
  have ws: "\<not> is_ws (CHR 0x22)" by (simp add: is_ws_def)
  show ?thesis
    unfolding t using parse_string_quote [OF assms t] by (simp add: skip_ws_Cons [OF ws])
qed

lemma print_int_first:
  "\<exists>c cs. print_int i = c # cs \<and> (is_digit c \<or> c = CHR ''-'')"
proof (cases "i = 0")
  case True
  then show ?thesis by (simp add: print_int_def)
next
  case False
  then have p: "0 < \<bar>i\<bar>" by simp
  have ne: "strip_zeros (digits \<bar>i\<bar>) \<noteq> []"
    using strip_zeros_hd [OF digits_nonempty digits_hd [OF p]] by simp
  obtain z where z: "digits \<bar>i\<bar> = strip_zeros (digits \<bar>i\<bar>) @ replicate z (CHR ''0'')"
    using strip_zeros_decompose by blast
  have dg: "\<forall>c\<in>set (strip_zeros (digits \<bar>i\<bar>)). is_digit c"
    using digits_all [of "\<bar>i\<bar>"] z by (metis Un_iff abs_ge_zero set_append)
  show ?thesis
    using number_to_string_first [OF ne dg, of "int (length (digits \<bar>i\<bar>))"] False
    by (auto simp add: print_int_def)
qed

lemma print_frac_first:
  "\<exists>c cs. print_frac s e = c # cs \<and> (is_digit c \<or> c = CHR ''-'')"
proof -
  have dg: "\<forall>c\<in>set (digits \<bar>s\<bar>). is_digit c" using digits_all [of "\<bar>s\<bar>"] by simp
  show ?thesis
    using number_to_string_first [OF digits_nonempty dg, of "int (length (digits \<bar>s\<bar>)) + e"]
    by (auto simp add: print_frac_def)
qed

lemma print_value_first:
  "\<exists>c cs. print_value v = c # cs \<and> \<not> is_ws c \<and> c \<noteq> CHR '']'' \<and> c \<noteq> CHR ''}''"
proof -
  have sp: "\<not> is_ws c \<and> c \<noteq> CHR '']'' \<and> c \<noteq> CHR ''}''" if "is_digit c \<or> c = CHR ''-''" for c
  proof (cases "is_digit c")
    case True
    then show ?thesis using digit_not_special [of c] by blast
  next
    case False
    then have "c = CHR ''-''" using that by blast
    then show ?thesis by (simp add: is_ws_def)
  qed
  show ?thesis
  proof (cases v)
    case (JNum i)
    obtain c cs where "print_int i = c # cs" "is_digit c \<or> c = CHR ''-''"
      using print_int_first [of i] by blast
    then show ?thesis using JNum sp [of c] by simp
  next
    case (JFrac s e)
    obtain c cs where "print_frac s e = c # cs" "is_digit c \<or> c = CHR ''-''"
      using print_frac_first [of s e] by blast
    then show ?thesis using JFrac sp [of c] by simp
  qed (simp_all add: is_ws_def quote_def)
qed

text \<open>Arrays and objects, and the induction over the printer.\<close>

lemma print_elems_first:
  "vs \<noteq> [] \<Longrightarrow>
     \<exists>c cs. print_elems vs = c # cs \<and> \<not> is_ws c \<and> c \<noteq> CHR '']'' \<and> c \<noteq> CHR ''}''"
  using print_value_first by (cases vs) (auto, metis append_Cons)

lemma pv_arr_empty: "parse_value (Suc n) (''[]'' @ r) = Some (JArr [], r)"
  by (simp add: skip_ws_def is_ws_def is_digit_def)

lemma pv_arr:
  assumes "vs \<noteq> []" and "parse_elems n (print_elems vs @ CHR '']'' # r) = Some (vs, r)"
  shows "parse_value (Suc n) (''['' @ print_elems vs @ '']'' @ r) = Some (JArr vs, r)"
proof -
  obtain c cs where f: "print_elems vs = c # cs" "\<not> is_ws c" "c \<noteq> CHR '']''"
    using print_elems_first [OF assms(1)] by auto
  have ws: "\<not> is_ws (CHR ''['')" by (simp add: is_ws_def)
  show ?thesis
    using assms(2) f
    by (simp add: skip_ws_Cons [OF ws] skip_ws_Cons [OF f(2)] is_digit_def)
qed

lemma pv_obj_empty: "parse_value (Suc n) (''{}'' @ r) = Some (JObj [], r)"
  by (simp add: skip_ws_def is_ws_def is_digit_def)

lemma print_members_first:
  "kvs \<noteq> [] \<Longrightarrow> \<exists>cs. print_members kvs = CHR 0x22 # cs"
  by (cases kvs) (auto simp add: quote_def)

lemma pv_obj:
  assumes "kvs \<noteq> []" and "parse_members n [] (print_members kvs @ CHR ''}'' # r) = Some (kvs', r)"
  shows "parse_value (Suc n) (''{'' @ print_members kvs @ ''}'' @ r) = Some (JObj kvs', r)"
proof -
  obtain cs where f: "print_members kvs = CHR 0x22 # cs"
    using print_members_first [OF assms(1)] by auto
  have ws: "\<not> is_ws (CHR ''{'')" "\<not> is_ws (CHR 0x22)" by (simp_all add: is_ws_def)
  show ?thesis
    using assms(2) f
    by (simp add: skip_ws_Cons [OF ws(1)] skip_ws_Cons [OF ws(2)] is_digit_def)
qed

lemma pe_last:
  assumes "parse_value n (print_value v @ CHR '']'' # r) = Some (v, CHR '']'' # r)"
  shows "parse_elems (Suc n) (print_elems [v] @ CHR '']'' # r) = Some ([v], r)"
  using assms by (simp add: skip_ws_def is_ws_def)

lemma pe_more:
  assumes "vs \<noteq> []"
    and "parse_value n (print_value v @ CHR '','' # print_elems vs @ CHR '']'' # r)
           = Some (v, CHR '','' # print_elems vs @ CHR '']'' # r)"
    and "parse_elems n (print_elems vs @ CHR '']'' # r) = Some (vs, r)"
  shows "parse_elems (Suc n) (print_elems (v # vs) @ CHR '']'' # r) = Some (v # vs, r)"
  using assms by (simp add: skip_ws_def is_ws_def)

lemma pm_last:
  assumes "join_surrogates k = k"
    and "parse_value n (print_value v @ CHR ''}'' # r) = Some (v, CHR ''}'' # r)"
  shows "parse_members (Suc n) acc (print_members [(k, v)] @ CHR ''}'' # r)
           = Some (obj_set k v acc, r)"
proof -
  obtain t where t: "quote k @ CHR '':'' # print_value v @ CHR ''}'' # r = CHR 0x22 # t"
    by (simp add: quote_def)
  have pc: "parse_string t = Some (k, CHR '':'' # print_value v @ CHR ''}'' # r)"
    using parse_string_quote [OF assms(1) t] .
  have ws: "\<not> is_ws (CHR 0x22)" "\<not> is_ws (CHR '':'')" "\<not> is_ws (CHR ''}'')"
    by (simp_all add: is_ws_def)
  have "parse_members (Suc n) acc (CHR 0x22 # t) = Some (obj_set k v acc, r)"
    using pc assms(2)
    by (simp add: skip_ws_Cons [OF ws(1)] skip_ws_Cons [OF ws(2)] skip_ws_Cons [OF ws(3)])
  then show ?thesis using t by simp
qed

lemma pm_more:
  assumes "join_surrogates k = k" and "kvs \<noteq> []"
    and "parse_value n (print_value v @ CHR '','' # print_members kvs @ CHR ''}'' # r)
           = Some (v, CHR '','' # print_members kvs @ CHR ''}'' # r)"
    and "parse_members n (obj_set k v acc) (print_members kvs @ CHR ''}'' # r) = Some (res, r)"
  shows "parse_members (Suc n) acc (print_members ((k, v) # kvs) @ CHR ''}'' # r)
           = Some (res, r)"
proof -
  let ?rest = "CHR '','' # print_members kvs @ CHR ''}'' # r"
  obtain t where t: "quote k @ CHR '':'' # print_value v @ ?rest = CHR 0x22 # t"
    by (simp add: quote_def)
  have pc: "parse_string t = Some (k, CHR '':'' # print_value v @ ?rest)"
    using parse_string_quote [OF assms(1) t] .
  have ws: "\<not> is_ws (CHR 0x22)" "\<not> is_ws (CHR '':'')" "\<not> is_ws (CHR '','')"
    by (simp_all add: is_ws_def)
  have "parse_members (Suc n) acc (CHR 0x22 # t) = Some (res, r)"
    using pc assms(3,4)
    by (simp add: skip_ws_Cons [OF ws(1)] skip_ws_Cons [OF ws(2)] skip_ws_Cons [OF ws(3)])
  then show ?thesis using t assms(2) by simp
qed

lemma fuel_pos: "0 < fuel v"
  by (cases v) simp_all

lemma follows_simps [simp]:
  "follows []" "follows (CHR '','' # r)" "follows (CHR '']'' # r)" "follows (CHR ''}'' # r)"
  by (simp_all add: follows_def)

lemma define_all_Cons: "define_all acc ((k, v) # kvs) = define_all (obj_set k v acc) kvs"
  by (simp add: define_all_def)

lemma roundtrip_mutual:
  "canonical v \<longrightarrow>
     (\<forall>n r. fuel v \<le> n \<longrightarrow> follows r \<longrightarrow> parse_value n (print_value v @ r) = Some (v, r))"
  "vs \<noteq> [] \<longrightarrow> list_all canonical vs \<longrightarrow>
     (\<forall>n r. sum_list (map (\<lambda>v. Suc (fuel v)) vs) \<le> n \<longrightarrow>
        parse_elems n (print_elems vs @ CHR '']'' # r) = Some (vs, r))"
  "kvs \<noteq> [] \<longrightarrow> list_all canonical (map snd kvs) \<longrightarrow>
     list_all (\<lambda>k. join_surrogates k = k) (map fst kvs) \<longrightarrow>
     (\<forall>n acc r. sum_list (map (\<lambda>kv. Suc (fuel (snd kv))) kvs) \<le> n \<longrightarrow>
        parse_members n acc (print_members kvs @ CHR ''}'' # r) = Some (define_all acc kvs, r))"
proof (induction v and vs and kvs rule: print_value_print_elems_print_members.induct)
  case 1
  show ?case
  proof (intro impI allI)
    fix n r assume "fuel JNull \<le> n"
    then obtain m where "n = Suc m" by (cases n) auto
    then show "parse_value n (print_value JNull @ r) = Some (JNull, r)" using pv_null by simp
  qed
next
  case (2 b)
  show ?case
  proof (intro impI allI)
    fix n r assume "fuel (JBool b) \<le> n"
    then obtain m where "n = Suc m" by (cases n) auto
    then show "parse_value n (print_value (JBool b) @ r) = Some (JBool b, r)"
      using pv_true [of m r] pv_false [of m r] by simp
  qed
next
  case (3 i)
  show ?case
  proof (intro impI allI)
    fix n r assume "fuel (JNum i) \<le> n" and f: "follows r"
    then obtain m where "n = Suc m" by (cases n) auto
    then show "parse_value n (print_value (JNum i) @ r) = Some (JNum i, r)"
      using pv_num [OF f, of m i] by simp
  qed
next
  case (4 s e)
  show ?case
  proof (intro impI allI)
    fix n r assume c: "canonical (JFrac s e)" and "fuel (JFrac s e) \<le> n" and f: "follows r"
    then obtain m where "n = Suc m" by (cases n) auto
    then show "parse_value n (print_value (JFrac s e) @ r) = Some (JFrac s e, r)"
      using pv_frac [OF f, of e s m] c by simp
  qed
next
  case (5 s)
  show ?case
  proof (intro impI allI)
    fix n r assume c: "canonical (JStr s)" and "fuel (JStr s) \<le> n"
    then obtain m where "n = Suc m" by (cases n) auto
    then show "parse_value n (print_value (JStr s) @ r) = Some (JStr s, r)"
      using pv_str [of s m r] c by simp
  qed
next
  case (6 vs)
  show ?case
  proof (intro impI allI)
    fix n r assume wf: "canonical (JArr vs)" and le: "fuel (JArr vs) \<le> n"
    then obtain m where n: "n = Suc m" and m: "sum_list (map (\<lambda>v. Suc (fuel v)) vs) \<le> m"
      by (cases n) auto
    show "parse_value n (print_value (JArr vs) @ r) = Some (JArr vs, r)"
    proof (cases "vs = []")
      case True
      then show ?thesis using n pv_arr_empty [of m r] by simp
    next
      case False
      have "parse_elems m (print_elems vs @ CHR '']'' # r) = Some (vs, r)"
        using 6 False wf m by simp
      then show ?thesis using n pv_arr [OF False, of m r] by simp
    qed
  qed
next
  case (7 kvs)
  show ?case
  proof (intro impI allI)
    fix n r assume wf: "canonical (JObj kvs)" and le: "fuel (JObj kvs) \<le> n"
    then obtain m where n: "n = Suc m"
      and m: "sum_list (map (\<lambda>kv. Suc (fuel (snd kv))) kvs) \<le> m"
      by (cases n) auto
    show "parse_value n (print_value (JObj kvs) @ r) = Some (JObj kvs, r)"
    proof (cases "kvs = []")
      case True
      then show ?thesis using n pv_obj_empty [of m r] by simp
    next
      case False
      have "parse_members m [] (print_members kvs @ CHR ''}'' # r) = Some (define_all [] kvs, r)"
        using 7 False wf m by simp
      moreover have "define_all [] kvs = kvs" using wf by simp
      ultimately have "parse_members m [] (print_members kvs @ CHR ''}'' # r) = Some (kvs, r)"
        by simp
      then show ?thesis using n pv_obj [OF False, of m r kvs] by simp
    qed
  qed
next
  case 8
  show ?case by simp
next
  case (9 v vs)
  show ?case
  proof (intro impI allI)
    fix n r
    assume wf: "list_all canonical (v # vs)"
      and le: "sum_list (map (\<lambda>v. Suc (fuel v)) (v # vs)) \<le> n"
    then obtain m where n: "n = Suc m" and mv: "fuel v \<le> m"
      and ms: "sum_list (map (\<lambda>v. Suc (fuel v)) vs) \<le> m"
      by (cases n) auto
    have pv: "follows t \<Longrightarrow> parse_value m (print_value v @ t) = Some (v, t)" for t
      using "9.IH"(1) wf mv by simp
    show "parse_elems n (print_elems (v # vs) @ CHR '']'' # r) = Some (v # vs, r)"
    proof (cases "vs = []")
      case True
      show ?thesis unfolding n True by (rule pe_last) (rule pv, simp)
    next
      case False
      have pe: "parse_elems m (print_elems vs @ CHR '']'' # r) = Some (vs, r)"
        using "9.IH"(2) [OF False] False wf ms by simp
      show ?thesis unfolding n by (rule pe_more [OF False _ pe]) (rule pv, simp)
    qed
  qed
next
  case 10
  show ?case by simp
next
  case (11 k v kvs)
  show ?case
  proof (intro impI allI)
    fix n and acc :: "(string \<times> json) list" and r
    assume wf: "list_all canonical (map snd ((k, v) # kvs))"
      and ks: "list_all (\<lambda>k. join_surrogates k = k) (map fst ((k, v) # kvs))"
      and le: "sum_list (map (\<lambda>kv. Suc (fuel (snd kv))) ((k, v) # kvs)) \<le> n"
    then obtain m where n: "n = Suc m" and mv: "fuel v \<le> m"
      and ms: "sum_list (map (\<lambda>kv. Suc (fuel (snd kv))) kvs) \<le> m"
      by (cases n) auto
    have k: "join_surrogates k = k" using ks by simp
    have pv: "follows t \<Longrightarrow> parse_value m (print_value v @ t) = Some (v, t)" for t
      using "11.IH"(1) wf mv by simp
    show "parse_members n acc (print_members ((k, v) # kvs) @ CHR ''}'' # r)
            = Some (define_all acc ((k, v) # kvs), r)"
    proof (cases "kvs = []")
      case True
      have d: "define_all acc [(k, v)] = obj_set k v acc" by (simp add: define_all_def)
      show ?thesis unfolding n True d by (rule pm_last [OF k]) (rule pv, simp)
    next
      case False
      have pm: "parse_members m (obj_set k v acc) (print_members kvs @ CHR ''}'' # r)
                  = Some (define_all (obj_set k v acc) kvs, r)"
        using "11.IH"(2) [OF False] False wf ks ms by simp
      show ?thesis unfolding n define_all_Cons
        by (rule pm_more [OF k False _ pm]) (rule pv, simp)
    qed
  qed
qed

lemma print_value_length: "Suc 0 \<le> length (print_value v)"
  using print_value_first [of v] by auto

lemma fuel_length:
  "fuel v \<le> length (print_value v)"
  "vs \<noteq> [] \<longrightarrow> sum_list (map (\<lambda>v. Suc (fuel v)) vs) \<le> Suc (length (print_elems vs))"
  "kvs \<noteq> [] \<longrightarrow> sum_list (map (\<lambda>kv. Suc (fuel (snd kv))) kvs) \<le> Suc (length (print_members kvs))"
proof (induction v and vs and kvs rule: print_value_print_elems_print_members.induct)
  case (3 i)
  show ?case using print_value_length [of "JNum i"] by simp
next
  case (4 s e)
  show ?case using print_value_length [of "JFrac s e"] by simp
next
  case (5 s)
  show ?case by (simp add: quote_def)
next
  case (6 vs)
  then show ?case by (cases "vs = []") simp_all
next
  case (7 kvs)
  then show ?case by (cases "kvs = []") simp_all
next
  case (9 v vs)
  then show ?case by (cases "vs = []") simp_all
next
  case (11 k v kvs)
  then show ?case by (cases "kvs = []") (simp_all add: quote_def)
qed simp_all

lemma JSON_roundtrip:
  assumes "canonical v"
  shows "JSON_parse (JSON_stringify v) = Some v"
proof -
  have "fuel v \<le> Suc (length (print_value v))" using fuel_length(1) [of v] by simp
  then have "parse_value (Suc (length (print_value v))) (print_value v @ []) = Some (v, [])"
    using roundtrip_mutual(1) [of v] assms follows_simps(1) by blast
  then have "parse_value (Suc (length (print_value v))) (print_value v) = Some (v, [])"
    by (simp only: append_Nil2)
  then show ?thesis
    unfolding JSON_parse_def JSON_stringify_def by (simp add: skip_ws_def del: parse_value.simps)
qed

lemma join_surrogates_plain: "\<forall>c\<in>set s. c \<noteq> CHR 0xED \<Longrightarrow> join_surrogates s = s"
  by (induction s rule: join_surrogates.induct) simp_all

lemma insert_index_last:
  "\<forall>k'\<in>fst ` set acc. is_index k' \<and> digits_value k' < digits_value k
     \<Longrightarrow> insert_index k v acc = acc @ [(k, v)]"
  by (induction acc) auto

lemma define_all_fresh:
  "distinct (map fst kvs) \<Longrightarrow> fst ` set kvs \<inter> fst ` set acc = {}
     \<Longrightarrow> \<forall>k\<in>fst ` set kvs. \<not> is_index k \<Longrightarrow> define_all acc kvs = acc @ kvs"
proof (induction kvs arbitrary: acc)
  case Nil
  then show ?case by (simp add: define_all_def)
next
  case (Cons kv kvs)
  obtain k v where kv: "kv = (k, v)" by (cases kv)
  have o: "obj_set k v acc = acc @ [(k, v)]" using Cons.prems kv by (auto simp add: obj_set_def)
  have "define_all (acc @ [(k, v)]) kvs = (acc @ [(k, v)]) @ kvs"
    by (rule Cons.IH) (use Cons.prems kv in auto)
  then show ?case unfolding kv define_all_Cons o by simp
qed

text \<open>The object that \<open>emit\<close> prints for a peer is canonical when its event name and its
  payload are, so the built-ins of the model give it back.\<close>

lemma envelope_canonical:
  assumes "join_surrogates event = event"
    and "case eventData of None \<Rightarrow> True | Some d \<Rightarrow> canonical d"
  shows "canonical (object_of [(''event'', Some (JStr event)), (''eventData'', eventData)])"
proof -
  have i: "\<not> is_index ''event''" "\<not> is_index ''eventData''"
    by (simp_all add: is_index_def is_digit_def)
  have j: "join_surrogates ''event'' = ''event''" "join_surrogates ''eventData'' = ''eventData''"
    by (simp_all add: join_surrogates_plain)
  show ?thesis
    using assms i j by (cases eventData) (simp_all add: object_of_def define_all_def obj_set_def)
qed

lemma envelope_gives_back:
  assumes "join_surrogates event = event"
    and "case eventData of None \<Rightarrow> True | Some d \<Rightarrow> canonical d"
  shows "JSON_parse (JSON_stringify (object_of [(''event'', Some (JStr event)), (''eventData'', eventData)]))
           = Some (object_of [(''event'', Some (JStr event)), (''eventData'', eventData)])"
  by (rule JSON_roundtrip) (rule envelope_canonical [OF assms])

subsection \<open>Shutdown\<close>

text \<open>
  C5. In every run of the process (either source file) in which the constructor has
  been called, after \<open>close()\<close> the instance is closed (\<open>aborted\<close> is set and no watchdog
  timer is pending), and it stays so whatever happens next: \<open>aborted\<close> is never reset,
  no timer is set, \<open>telemetryWatchdog\<close> is never invoked again, and a further call of
  \<open>close()\<close> returns without error.
\<close>

theorem close_is_final:
  "closed_down (step src DoClose (run src evs1 (step src (Construct arg) (boot c))))
   \<and> closed_down (run src evs2 (step src DoClose (run src evs1 (step src (Construct arg) (boot c)))))
   \<and> ticks (rt (run src evs2 (step src DoClose (run src evs1 (step src (Construct arg) (boot c))))))
       = ticks (rt (step src DoClose (run src evs1 (step src (Construct arg) (boot c)))))
   \<and> timers_set (trace (rt (run src evs2 (step src DoClose (run src evs1 (step src (Construct arg) (boot c)))))))
       = timers_set (trace (rt (step src DoClose (run src evs1 (step src (Construct arg) (boot c))))))
   \<and> (\<forall>this. instance (run src evs2 (step src DoClose (run src evs1 (step src (Construct arg) (boot c)))))
                = Some this \<longrightarrow>
          fst (this_close src
                (this, rt (run src evs2 (step src DoClose (run src evs1 (step src (Construct arg) (boot c)))))))
            = None)"
proof -
  let ?p1 = "run src evs1 (step src (Construct arg) (boot c))"
  obtain this0 where "instance (step src (Construct arg) (boot c)) = Some this0"
    using new_instance [of src arg "boot c"] by (auto simp add: step_def)
  then obtain this1 where i: "instance ?p1 = Some this1"
    using run_instance [of "step src (Construct arg) (boot c)" this0 src evs1] by auto
  have ok: "proc_ok ?p1" by (intro run_proc_ok step_proc_ok boot_proc_ok)
  have c: "closed_down (step src DoClose ?p1)" using close_closes [OF ok i] .
  show ?thesis using c run_closed [OF c, of src evs2] by simp
qed

theorem close_is_final_witness:
  "pending_timers (rt (run Telemetry_ts [WatchdogResumes] (step Telemetry_ts (Construct None) (boot config_w1)))) = [1]
   \<and> closed_down (run Telemetry_ts [TimerFires 1, WatchdogResumes, DoClose]
        (step Telemetry_ts DoClose
          (run Telemetry_ts [WatchdogResumes] (step Telemetry_ts (Construct None) (boot config_w1)))))
   \<and> ticks (rt (run Telemetry_ts [TimerFires 1, WatchdogResumes, DoClose]
        (step Telemetry_ts DoClose
          (run Telemetry_ts [WatchdogResumes] (step Telemetry_ts (Construct None) (boot config_w1)))))) = 1"
proof -
  have a: "pending_timers (rt (run Telemetry_ts [WatchdogResumes]
             (step Telemetry_ts (Construct None) (boot config_w1)))) = [1]"
    by code_simp
  have b: "ticks (rt (step Telemetry_ts DoClose (run Telemetry_ts [WatchdogResumes]
             (step Telemetry_ts (Construct None) (boot config_w1))))) = 1"
    by code_simp
  note th = close_is_final [of Telemetry_ts "[WatchdogResumes]" None config_w1
              "[TimerFires 1, WatchdogResumes, DoClose]"]
  show ?thesis
    using a b th [THEN conjunct2, THEN conjunct1] th [THEN conjunct2, THEN conjunct2, THEN conjunct1]
    by (simp only:) 
qed

subsection \<open>Inbound: the mailbox loop of src/telemetry.ts\<close>

text \<open>
  C6. When a batch contains a malformed message (its text does not parse), the batch
  dispatches exactly what its other messages dispatch, in order: the malformed message
  contributes nothing, every well-formed message after it is handed to the event relay
  under the event name of its envelope, and the loop is still receiving afterwards.
\<close>

theorem malformed_message_is_skipped:
  assumes "truthy (data bad)"
    and "JSON_parse_of (cfg (snd s)) (interpolate (data bad)) = None"
    and "\<not> aborted (fst s)"
  shows "dispatches (trace (snd (checkIpc_batch (ms1 @ bad # ms2) s)))
           = dispatches (trace (snd s))
             @ List.map_filter (envelope_of (cfg (snd s))) ms1
             @ List.map_filter (envelope_of (cfg (snd s))) ms2
         \<and> (\<forall>m\<in>set ms2. \<forall>kvs.
               truthy (data m)
               \<and> JSON_parse_of (cfg (snd s)) (interpolate (data m)) = Some (JObj kvs)
               \<longrightarrow> (map_of kvs ''event'', map_of kvs ''eventData'')
                     \<in> set (List.map_filter (envelope_of (cfg (snd s))) ms2))
         \<and> receiving (snd (checkIpc_batch (ms1 @ bad # ms2) s)) = receiving (snd s)"
proof -
  have b: "checkIpc_batch (ms1 @ bad # ms2) s = process_messages (ms1 @ bad # ms2) s"
    using assms(3) by (cases s) (simp add: checkIpc_batch_def)
  have e: "envelope_of (cfg (snd s)) bad = None"
    using assms(1,2) by (simp add: envelope_of_def)
  have 1: "dispatches (trace (snd (checkIpc_batch (ms1 @ bad # ms2) s)))
           = dispatches (trace (snd s))
             @ List.map_filter (envelope_of (cfg (snd s))) ms1
             @ List.map_filter (envelope_of (cfg (snd s))) ms2"
    unfolding b dispatches_process_messages using e
    by (simp add: map_filter_append List.map_filter_simps)
  have 2: "(map_of kvs ''event'', map_of kvs ''eventData'')
             \<in> set (List.map_filter (envelope_of (cfg (snd s))) ms2)"
    if "m \<in> set ms2" "truthy (data m)"
      "JSON_parse_of (cfg (snd s)) (interpolate (data m)) = Some (JObj kvs)" for m kvs
  proof -
    have "envelope_of (cfg (snd s)) m = Some (map_of kvs ''event'', map_of kvs ''eventData'')"
      using that(2,3) by (simp add: envelope_of_def)
    then show ?thesis using that(1) by (force simp add: List.map_filter_def)
  qed
  have 3: "receiving (snd (checkIpc_batch (ms1 @ bad # ms2) s)) = receiving (snd s)"
    unfolding b using quiet_fields(5) [OF quiet_process_messages] .
  show ?thesis using 1 2 3 by blast
qed

theorem malformed_message_witness:
  "truthy (data msg_malformed)
   \<and> JSON_parse_of (cfg (snd (instance_w1, rt (boot config_w1)))) (interpolate (data msg_malformed)) = None
   \<and> \<not> aborted (fst (instance_w1, rt (boot config_w1)))
   \<and> dispatches (trace (snd (checkIpc_batch ([msg_stop] @ msg_malformed # [msg_ping])
                                (instance_w1, rt (boot config_w1)))))
       = [(Some (JStr ''stop''), None), (Some (JStr ''ping''), None)]"
proof -
  have h1: "truthy (data msg_malformed)" by (simp add: msg_malformed_def)
  have h2: "JSON_parse_of (cfg (snd (instance_w1, rt (boot config_w1))))
              (interpolate (data msg_malformed)) = None"
    by code_simp
  have h3: "\<not> aborted (fst (instance_w1, rt (boot config_w1)))" by (simp add: instance_w1_def)
  have e1: "List.map_filter (envelope_of (cfg (snd (instance_w1, rt (boot config_w1))))) [msg_stop]
              = [(Some (JStr ''stop''), None)]"
    by code_simp
  have e2: "List.map_filter (envelope_of (cfg (snd (instance_w1, rt (boot config_w1))))) [msg_ping]
              = [(Some (JStr ''ping''), None)]"
    by code_simp
  have t: "dispatches (trace (snd (instance_w1, rt (boot config_w1)))) = []"
    by (simp add: boot_def)
  note th = malformed_message_is_skipped [OF h1 h2 h3, of "[msg_stop]" "[msg_ping]"]
  have d: "dispatches (trace (snd (checkIpc_batch ([msg_stop] @ msg_malformed # [msg_ping])
                                (instance_w1, rt (boot config_w1)))))
       = [(Some (JStr ''stop''), None), (Some (JStr ''ping''), None)]"
    using th [THEN conjunct1] e1 e2 t by (simp only: append_Nil append_Cons)
  show ?thesis using h1 h2 h3 d by (intro conjI)
qed

text \<open>
  C7. The claim: the loop checks \<open>aborted\<close> before each batch and again before each
  message of a batch, so that no message of a batch is dispatched after \<open>aborted\<close>
  became true. The code checks the flag before it opens the mailbox and before each
  batch only. In the scenario the listener for \<open>stop\<close> calls \<open>close()\<close> while the first
  message of the batch is dispatched, and the second message is dispatched all the same.
\<close>

theorem dispatch_after_close_counterexample:
  "\<not> no_dispatch_after_close (trace (rt (run Telemetry_ts stop_scenario (boot config_w1))))"
  by code_simp

text \<open>
  C7, amended. In every state of a run of src/telemetry.ts in which \<open>aborted\<close> is set,
  the loop does not open the mailbox, a batch that arrives makes the loop exit without
  dispatching, and no later turn of the process dispatches a message.
\<close>

theorem aborted_stops_inbound_loop:
  assumes "instance (run Telemetry_ts evs0 (boot c)) = Some this" and "aborted this"
  shows "dispatches (trace (rt (run Telemetry_ts evs (run Telemetry_ts evs0 (boot c)))))
           = dispatches (trace (rt (run Telemetry_ts evs0 (boot c))))
         \<and> checkIpc_batch ms (this, rt (run Telemetry_ts evs0 (boot c)))
           = (this, (rt (run Telemetry_ts evs0 (boot c)))\<lparr>receiving := False\<rparr>)
         \<and> checkIpc_resume (this, rt (run Telemetry_ts evs0 (boot c)))
           = (this, (rt (run Telemetry_ts evs0 (boot c)))\<lparr>checkIpc_suspended := False\<rparr>)"
proof -
  have ok: "proc_ok (run Telemetry_ts evs0 (boot c))" by (intro run_proc_ok boot_proc_ok)
  have c: "closed_down (run Telemetry_ts evs0 (boot c))" using aborted_closed [OF ok assms] .
  show ?thesis using run_closed_dispatches [OF c] assms(2)
    by (simp add: checkIpc_batch_def checkIpc_resume_def Let_def)
qed

theorem aborted_stops_inbound_loop_witness:
  "map_option aborted (instance (run Telemetry_ts stop_scenario (boot config_w1))) = Some True
   \<and> dispatches (trace (rt (run Telemetry_ts [BatchArrives [msg_ping]]
                               (run Telemetry_ts stop_scenario (boot config_w1)))))
       = dispatches (trace (rt (run Telemetry_ts stop_scenario (boot config_w1))))
   \<and> dispatches (trace (rt (run Telemetry_ts stop_scenario (boot config_w1))))
       = [(Some (JStr ''stop''), None), (Some (JStr ''ping''), None)]"
proof -
  have a: "map_option aborted (instance (run Telemetry_ts stop_scenario (boot config_w1))) = Some True"
    by code_simp
  have d: "dispatches (trace (rt (run Telemetry_ts stop_scenario (boot config_w1))))
       = [(Some (JStr ''stop''), None), (Some (JStr ''ping''), None)]"
    by code_simp
  obtain this where i: "instance (run Telemetry_ts stop_scenario (boot config_w1)) = Some this"
    and ab: "aborted this"
    using a by (cases "instance (run Telemetry_ts stop_scenario (boot config_w1))") auto
  note th = aborted_stops_inbound_loop [OF i ab, of "[BatchArrives [msg_ping]]"]
  show ?thesis using a d th [THEN conjunct1] by (simp only:) 
qed

subsection \<open>The wire format of the mailbox\<close>




end
